theory Spec2Isabelle
  imports Main
begin

section \<open>Host values and host collections\<close>

text \<open>
  The container \<open>IterableWeakSet\<close> is written against four facilities of the
  ECMAScript host: \<open>WeakMap\<close>, \<open>Map\<close>, \<open>WeakRef\<close> and
  \<open>FinalizationRegistry\<close>. Their behaviour is transcribed here from the language
  standard, as far as the container calls them.

  A value is either a reference value \<open>Obj a\<close> (an object, a function, a
  non-registered symbol: anything with an identity \<open>a\<close> that can be held weakly)
  or a primitive. Among the objects the standard singles out those with the
  internal slot \<open>[[IsHTMLDDA]]\<close> (a browser's \<open>document.all\<close>, ECMA-262 B.3.6):
  they are objects in every respect the container relies on, a \<open>WeakRef\<close> and
  a \<open>WeakMap\<close> accept them, the type \<open>T extends WeakKey\<close> admits them, but
  they convert to \<open>false\<close>. The identity of an object says which kind it is.
\<close>

datatype objid = Ordinary nat | HTMLDDA nat

datatype jsval = Obj objid | Num int | Str string | Bool bool | Null | Undefined

fun can_be_held_weakly :: "jsval \<Rightarrow> bool" where
  "can_be_held_weakly (Obj a) = True"
| "can_be_held_weakly v = False"

text \<open>
  The conversion \<open>ToBoolean\<close> behind \<open>if (value)\<close>: an object is true unless it
  has the slot \<open>[[IsHTMLDDA]]\<close>.
\<close>

fun to_boolean :: "jsval \<Rightarrow> bool" where
  "to_boolean (Obj (Ordinary n)) = True"
| "to_boolean (Obj (HTMLDDA n)) = False"
| "to_boolean (Num n) = (n \<noteq> 0)"
| "to_boolean (Str s) = (s \<noteq> [])"
| "to_boolean (Bool b) = b"
| "to_boolean Null = False"
| "to_boolean Undefined = False"

text \<open>
  The only exception the host raises on the container's paths is \<open>TypeError\<close>;
  the specification calls it \<open>InvalidKeyType\<close>.
\<close>

datatype error = TypeError

abbreviation InvalidKeyType :: error where
  "InvalidKeyType \<equiv> TypeError"

subsection \<open>WeakMap\<close>

text \<open>
  \<open>WeakMap.prototype.has/get/delete\<close> answer \<open>false\<close>/\<open>undefined\<close>/\<open>false\<close>
  for a key that cannot be held weakly; only \<open>set\<close> throws.
\<close>

fun weakmap_has :: "(objid \<rightharpoonup> nat) \<Rightarrow> jsval \<Rightarrow> bool" where
  "weakmap_has m (Obj a) = (m a \<noteq> None)"
| "weakmap_has m v = False"

fun weakmap_get :: "(objid \<rightharpoonup> nat) \<Rightarrow> jsval \<Rightarrow> nat option" where
  "weakmap_get m (Obj a) = m a"
| "weakmap_get m v = None"

fun weakmap_set ::
  "jsval \<Rightarrow> nat \<Rightarrow> (objid \<rightharpoonup> nat) \<Rightarrow> error + (objid \<rightharpoonup> nat)" where
  "weakmap_set (Obj a) r m = Inr (m(a \<mapsto> r))"
| "weakmap_set v r m = Inl TypeError"

fun weakmap_delete :: "jsval \<Rightarrow> (objid \<rightharpoonup> nat) \<Rightarrow> (objid \<rightharpoonup> nat)" where
  "weakmap_delete (Obj a) m = m(a := None)"
| "weakmap_delete v m = m"

subsection \<open>Map\<close>

text \<open>
  A \<open>Map\<close> is its list of records in insertion order. \<open>delete\<close> empties the
  first record with the key and leaves it in the list (\<open>None\<close> here), so that the
  position of a running iterator stays meaningful; \<open>set\<close> overwrites the record
  of a present key in place and appends a record for an absent one.
\<close>

fun map_get :: "'k \<Rightarrow> ('k \<times> 'v) option list \<Rightarrow> 'v option" where
  "map_get k [] = None"
| "map_get k (None # es) = map_get k es"
| "map_get k (Some (k', v) # es) = (if k' = k then Some v else map_get k es)"

fun map_set :: "'k \<Rightarrow> 'v \<Rightarrow> ('k \<times> 'v) option list \<Rightarrow> ('k \<times> 'v) option list" where
  "map_set k v [] = [Some (k, v)]"
| "map_set k v (None # es) = None # map_set k v es"
| "map_set k v (Some (k', v') # es) =
     (if k' = k then Some (k, v) # es else Some (k', v') # map_set k v es)"

fun map_delete :: "'k \<Rightarrow> ('k \<times> 'v) option list \<Rightarrow> ('k \<times> 'v) option list" where
  "map_delete k [] = []"
| "map_delete k (None # es) = None # map_delete k es"
| "map_delete k (Some (k', v) # es) =
     (if k' = k then None # es else Some (k', v) # map_delete k es)"

subsection \<open>FinalizationRegistry\<close>

text \<open>
  A registry is its list of cells. A cell remembers the target weakly
  (\<open>cell_target\<close> becomes \<open>None\<close> when the target is reclaimed), the held value
  (here always a WeakRef) and the unregister token. \<open>register\<close> throws for a
  target that cannot be held weakly. (It also throws when the held value is
  the target itself; the container passes a WeakRef it has just allocated, so
  the two are never the same object, and WeakRefs and tokens are numbered
  apart from the caller's elements.)
\<close>

record cell =
  cell_target :: "objid option"
  held_value :: nat
  unregister_token :: nat

fun registry_register :: "jsval \<Rightarrow> nat \<Rightarrow> nat \<Rightarrow> cell list \<Rightarrow> error + cell list" where
  "registry_register (Obj a) held tok cs =
     Inr (cs @ [\<lparr>cell_target = Some a, held_value = held, unregister_token = tok\<rparr>])"
| "registry_register v held tok cs = Inl TypeError"

definition unregister_cells :: "nat \<Rightarrow> cell list \<Rightarrow> cell list" where
  "unregister_cells tok cs = filter (\<lambda>c. unregister_token c \<noteq> tok) cs"

text \<open>
  \<open>unregister\<close> throws when its argument cannot be held weakly; on the
  container's paths that is the case \<open>undefined\<close> of a failed \<open>Map\<close> lookup.
\<close>

fun registry_unregister :: "nat option \<Rightarrow> cell list \<Rightarrow> error + cell list" where
  "registry_unregister None cs = Inl TypeError"
| "registry_unregister (Some tok) cs = Inr (unregister_cells tok cs)"

section \<open>The container\<close>

text \<open>
  The three private fields of the class, and beside them the part of the heap
  they depend on: the target slot of every allocated WeakRef, the allocator of
  fresh object identities (for the WeakRef and the token that \<open>add\<close> creates),
  and the set of elements the collector has reclaimed so far. The last field is
  never read by the container; it records history for the statements below.
\<close>

record iws =
  refs :: "objid \<rightharpoonup> nat"
  tokens :: "(nat \<times> nat) option list"
  registry :: "cell list"
  weakref_target :: "nat \<rightharpoonup> objid"
  next_id :: nat
  reclaimed :: "objid set"

definition new_iws :: iws where
  "new_iws = \<lparr>refs = Map.empty, tokens = [], registry = [],
              weakref_target = Map.empty, next_id = 0, reclaimed = {}\<rparr>"

text \<open>\<open>new WeakRef(value)\<close>: throws for a primitive, allocates otherwise.\<close>

fun new_weakref :: "jsval \<Rightarrow> iws \<Rightarrow> error + (nat \<times> iws)" where
  "new_weakref (Obj a) s =
     Inr (next_id s, s\<lparr>weakref_target := (weakref_target s)(next_id s \<mapsto> a),
                       next_id := Suc (next_id s)\<rparr>)"
| "new_weakref v s = Inl TypeError"

text \<open>\<open>ref.deref()\<close>\<close>

definition deref :: "iws \<Rightarrow> nat \<Rightarrow> jsval" where
  "deref s r = (case weakref_target s r of Some a \<Rightarrow> Obj a | None \<Rightarrow> Undefined)"

definition has :: "jsval \<Rightarrow> iws \<Rightarrow> (error + bool) \<times> iws" where
  "has v s = (Inr (weakmap_has (refs s) v), s)"

definition add :: "jsval \<Rightarrow> iws \<Rightarrow> (error + unit) \<times> iws" where
  "add v s =
    (case has v s of
       (Inl e, s0) \<Rightarrow> (Inl e, s0)
     | (Inr present, s0) \<Rightarrow>
         if \<not> present then
           (let token = next_id s0;
                s1 = s0\<lparr>next_id := Suc (next_id s0)\<rparr>
            in case new_weakref v s1 of
                 Inl e \<Rightarrow> (Inl e, s1)
               | Inr (ref, s2) \<Rightarrow>
                   (case weakmap_set v ref (refs s2) of
                      Inl e \<Rightarrow> (Inl e, s2)
                    | Inr m \<Rightarrow>
                        (let s3 = s2\<lparr>refs := m, tokens := map_set ref token (tokens s2)\<rparr>
                         in case registry_register v ref token (registry s3) of
                              Inl e \<Rightarrow> (Inl e, s3)
                            | Inr cs \<Rightarrow> (Inr (), s3\<lparr>registry := cs\<rparr>))))
         else (Inr (), s0))"

text \<open>
  In \<open>delete\<close> the test \<open>if (!ref)\<close> is on a WeakRef, an ordinary object that
  converts to \<open>true\<close>: it fails exactly when the WeakMap has no record. The
  argument of \<open>unregister\<close> is the result of the lookup in the token map,
  \<open>undefined\<close> when the key is missing.
\<close>

definition delete :: "jsval \<Rightarrow> iws \<Rightarrow> (error + bool) \<times> iws" where
  "delete v s =
    (case weakmap_get (refs s) v of
       None \<Rightarrow> (Inr False, s)
     | Some ref \<Rightarrow>
         (let s1 = s\<lparr>refs := weakmap_delete v (refs s)\<rparr>
          in case registry_unregister (map_get ref (tokens s1)) (registry s1) of
               Inl e \<Rightarrow> (Inl e, s1)
             | Inr cs \<Rightarrow>
                 (Inr True, s1\<lparr>registry := cs, tokens := map_delete ref (tokens s1)\<rparr>)))"

text \<open>
  The \<open>else\<close> branch of the generator: the visited record is deleted from the
  token map and its registration is cancelled. The generator takes this
  branch when \<open>if (value)\<close> fails, that is when the dereferenced value
  converts to \<open>false\<close>.
\<close>

definition prune :: "nat \<Rightarrow> nat \<Rightarrow> iws \<Rightarrow> iws" where
  "prune ref token s =
     s\<lparr>tokens := map_delete ref (tokens s),
       registry := unregister_cells token (registry s)\<rparr>"

text \<open>
  One resumption of the generator \<open>[Symbol.iterator]\<close> with the \<open>Map\<close>
  iterator at position \<open>i\<close>: it runs to the next \<open>yield\<close> (the yielded value,
  the state, the new position) or to the end of the record list.
\<close>

function iter_next :: "iws \<Rightarrow> nat \<Rightarrow> jsval option \<times> iws \<times> nat" where
  "iter_next s i =
     (if length (tokens s) \<le> i then (None, s, i)
      else case tokens s ! i of
             None \<Rightarrow> iter_next s (Suc i)
           | Some (ref, token) \<Rightarrow>
               (let v = deref s ref
                in if to_boolean v then (Some v, s, Suc i)
                   else iter_next (prune ref token s) (Suc i)))"
  by pat_completeness auto
termination
proof -
  have len: "length (map_delete k es) = length es" for k :: nat and es :: "(nat \<times> nat) option list"
    by (induction k es rule: map_delete.induct) auto
  show ?thesis
    by (relation "measure (\<lambda>(s, i). length (tokens s) - i)") (auto simp: prune_def len)
qed

declare iter_next.simps [simp del]

text \<open>
  A full traversal, \<open>for (const value of this)\<close> with a body that does not touch
  the container: the generator is resumed until it is done.
\<close>

function iterate_from :: "iws \<Rightarrow> nat \<Rightarrow> jsval list \<times> iws" where
  "iterate_from s i =
     (case iter_next s i of
        (None, s', i') \<Rightarrow> ([], s')
      | (Some v, s', i') \<Rightarrow> (let (vs, s'') = iterate_from s' i' in (v # vs, s'')))"
  by pat_completeness auto
termination
proof -
  have len: "length (map_delete k es) = length es" for k :: nat and es :: "(nat \<times> nat) option list"
    by (induction k es rule: map_delete.induct) auto
  have step: "iter_next s i = (Some v, s', i') \<Longrightarrow>
      length (tokens s') = length (tokens s) \<and> i < i' \<and> i' \<le> length (tokens s)" for s i v s' i'
  proof (induction s i rule: iter_next.induct)
    case (1 s i)
    show ?case
    proof (cases "length (tokens s) \<le> i")
      case True
      with "1.prems" show ?thesis by (simp add: iter_next.simps [of s i])
    next
      case False
      note inb = this
      show ?thesis
      proof (cases "tokens s ! i")
        case None
        with inb "1.prems" have "iter_next s (Suc i) = (Some v, s', i')"
          by (simp add: iter_next.simps [of s i])
        with "1.IH"(1) [OF inb None] show ?thesis by simp
      next
        case (Some e)
        obtain r t where e: "e = (r, t)" by (cases e)
        show ?thesis
        proof (cases "to_boolean (deref s r)")
          case True
          with inb Some e "1.prems" show ?thesis
            by (auto simp: Let_def iter_next.simps [of s i])
        next
          case False
          with inb Some e "1.prems"
          have "iter_next (prune r t s) (Suc i) = (Some v, s', i')"
            by (simp add: Let_def iter_next.simps [of s i])
          with "1.IH"(2) [OF inb Some [unfolded e] refl refl False]
          show ?thesis by (simp add: prune_def len)
        qed
      qed
    qed
  qed
  show ?thesis
    by (relation "measure (\<lambda>(s, i). length (tokens s) - i)") (auto dest!: step [OF sym])
qed

declare iterate_from.simps [simp del]

definition iterate :: "iws \<Rightarrow> jsval list \<times> iws" where
  "iterate s = iterate_from s 0"

text \<open>The getter \<open>size\<close> counts the yields of a full traversal.\<close>

definition size_iws :: "iws \<Rightarrow> nat \<times> iws" where
  "size_iws s = (let (vs, s') = iterate s in (length vs, s'))"

definition entries :: "iws \<Rightarrow> (jsval \<times> jsval) list \<times> iws" where
  "entries s = (let (vs, s') = iterate s in (map (\<lambda>v. (v, v)) vs, s'))"

text \<open>
  \<open>clear\<close> deletes every yielded element while the traversal is running.
\<close>

function clear_from :: "iws \<Rightarrow> nat \<Rightarrow> (error + unit) \<times> iws" where
  "clear_from s i =
     (case iter_next s i of
        (None, s', i') \<Rightarrow> (Inr (), s')
      | (Some v, s', i') \<Rightarrow>
          (case delete v s' of
             (Inl e, s'') \<Rightarrow> (Inl e, s'')
           | (Inr b, s'') \<Rightarrow> clear_from s'' i'))"
  by pat_completeness auto
termination
proof -
  have len: "length (map_delete k es) = length es" for k :: nat and es :: "(nat \<times> nat) option list"
    by (induction k es rule: map_delete.induct) auto
  have step: "iter_next s i = (Some v, s', i') \<Longrightarrow>
      length (tokens s') = length (tokens s) \<and> i < i' \<and> i' \<le> length (tokens s)" for s i v s' i'
  proof (induction s i rule: iter_next.induct)
    case (1 s i)
    show ?case
    proof (cases "length (tokens s) \<le> i")
      case True
      with "1.prems" show ?thesis by (simp add: iter_next.simps [of s i])
    next
      case False
      note inb = this
      show ?thesis
      proof (cases "tokens s ! i")
        case None
        with inb "1.prems" have "iter_next s (Suc i) = (Some v, s', i')"
          by (simp add: iter_next.simps [of s i])
        with "1.IH"(1) [OF inb None] show ?thesis by simp
      next
        case (Some e)
        obtain r t where e: "e = (r, t)" by (cases e)
        show ?thesis
        proof (cases "to_boolean (deref s r)")
          case True
          with inb Some e "1.prems" show ?thesis
            by (auto simp: Let_def iter_next.simps [of s i])
        next
          case False
          with inb Some e "1.prems"
          have "iter_next (prune r t s) (Suc i) = (Some v, s', i')"
            by (simp add: Let_def iter_next.simps [of s i])
          with "1.IH"(2) [OF inb Some [unfolded e] refl refl False]
          show ?thesis by (simp add: prune_def len)
        qed
      qed
    qed
  qed
  have del: "delete v s = (Inr b, s') \<Longrightarrow> length (tokens s') = length (tokens s)" for v s b s'
    by (auto simp: delete_def Let_def len split: option.splits sum.splits)
  show ?thesis
    by (relation "measure (\<lambda>(s, i). length (tokens s) - i)")
       (auto dest!: step [OF sym] del [OF sym])
qed

declare clear_from.simps [simp del]

definition clear :: "iws \<Rightarrow> (error + unit) \<times> iws" where
  "clear s = clear_from s 0"

section \<open>The environment: reclamation and the registry's callback\<close>

text \<open>
  When the collector reclaims the element \<open>a\<close>, the host empties, in one atomic
  step, the target of every WeakRef to \<open>a\<close>, the target of every registry cell
  for \<open>a\<close>, and every WeakMap record keyed by \<open>a\<close>.
\<close>

definition reclaim :: "objid \<Rightarrow> iws \<Rightarrow> iws" where
  "reclaim a s =
     s\<lparr>refs := (refs s)(a := None),
       weakref_target := (\<lambda>r. if weakref_target s r = Some a then None else weakref_target s r),
       registry := map (\<lambda>c. if cell_target c = Some a then c\<lparr>cell_target := None\<rparr> else c)
                       (registry s),
       reclaimed := insert a (reclaimed s)\<rparr>"

text \<open>The callback given to the registry: \<open>(ref) => this.#tokens.delete(ref)\<close>.\<close>

definition cleanup_callback :: "nat \<Rightarrow> iws \<Rightarrow> iws" where
  "cleanup_callback ref s = s\<lparr>tokens := map_delete ref (tokens s)\<rparr>"

text \<open>
  At some later time, or never, the host takes a cell whose target is empty out
  of the registry and calls the callback with the held value. \<open>fire k\<close> does
  that for the cell at position \<open>k\<close> and is idle when that cell is missing or
  its target is still there.
\<close>

definition fire :: "nat \<Rightarrow> iws \<Rightarrow> iws" where
  "fire k s =
     (if k < length (registry s) \<and> cell_target (registry s ! k) = None
      then cleanup_callback (held_value (registry s ! k))
             (s\<lparr>registry := take k (registry s) @ drop (Suc k) (registry s)\<rparr>)
      else s)"

section \<open>Histories\<close>

text \<open>
  What can happen to a container: the caller invokes a method, resumes a
  generator it holds at some position of the record list (\<open>Next\<close>), runs a full
  traversal (\<open>Traverse\<close>: default iteration, \<open>keys\<close>, \<open>values\<close>, \<open>entries\<close>,
  \<open>size\<close>, or \<open>forEach\<close> with a callback that leaves the container alone), and
  between two such calls the collector may reclaim an element and the registry
  may call back. An exception is caught by the caller, who then carries on.
  The constructor with an iterable is a sequence of \<open>Add\<close> events on a new
  container; \<open>forEach\<close> with a callback that calls back into the container is
  a sequence of \<open>Next\<close> events with those calls in between.
\<close>

datatype event =
    Has jsval | Add jsval | Delete jsval | Clear
  | Next nat | Traverse
  | Reclaim objid | Fire nat

fun step :: "event \<Rightarrow> iws \<Rightarrow> iws" where
  "step (Has v) s = snd (has v s)"
| "step (Add v) s = snd (add v s)"
| "step (Delete v) s = snd (delete v s)"
| "step Clear s = snd (clear s)"
| "step (Next i) s = fst (snd (iter_next s i))"
| "step Traverse s = snd (iterate s)"
| "step (Reclaim a) s = reclaim a s"
| "step (Fire k) s = fire k s"

text \<open>
  The caller can only pass what it still holds: a reclaimed element was
  unreachable, so no later call mentions it.
\<close>

fun held_by_caller :: "jsval \<Rightarrow> iws \<Rightarrow> bool" where
  "held_by_caller (Obj a) s = (a \<notin> reclaimed s)"
| "held_by_caller v s = True"

fun allowed :: "event \<Rightarrow> iws \<Rightarrow> bool" where
  "allowed (Has v) s = held_by_caller v s"
| "allowed (Add v) s = held_by_caller v s"
| "allowed (Delete v) s = held_by_caller v s"
| "allowed e s = True"

fun exec :: "event list \<Rightarrow> iws \<Rightarrow> iws" where
  "exec [] s = s"
| "exec (e # es) s = exec es (step e s)"

fun trace_ok :: "event list \<Rightarrow> iws \<Rightarrow> bool" where
  "trace_ok [] s = True"
| "trace_ok (e # es) s = (allowed e s \<and> trace_ok es (step e s))"

section \<open>Observations and the specification's view\<close>

text \<open>The keys of the records that are still in a \<open>Map\<close>, in insertion order.\<close>

fun keys_of :: "('k \<times> 'v) option list \<Rightarrow> 'k list" where
  "keys_of [] = []"
| "keys_of (None # es) = keys_of es"
| "keys_of (Some (k, v) # es) = k # keys_of es"

text \<open>
  The generator treats a record of the token map as stale when what its
  WeakRef dereferences to converts to \<open>false\<close>: \<open>undefined\<close> after a
  reclamation, but also an element that is itself false. The live elements
  are what the other records dereference to, in the order of the records.
\<close>

definition stale :: "iws \<Rightarrow> nat \<Rightarrow> bool" where
  "stale s r = (\<not> to_boolean (deref s r))"

definition live_elems :: "iws \<Rightarrow> jsval list" where
  "live_elems s = filter to_boolean (map (deref s) (keys_of (tokens s)))"

text \<open>The same for the records from position \<open>i\<close> on.\<close>

definition live_from :: "iws \<Rightarrow> nat \<Rightarrow> jsval list" where
  "live_from s i = filter to_boolean (map (deref s) (keys_of (drop i (tokens s))))"

text \<open>And for the records before position \<open>i\<close>.\<close>

definition live_upto :: "iws \<Rightarrow> nat \<Rightarrow> jsval list" where
  "live_upto s i = filter to_boolean (map (deref s) (keys_of (take i (tokens s))))"

text \<open>
  The specification's view of a history is an insertion-ordered set: adding
  an absent element appends it, adding a present one changes nothing, deleting
  or reclaiming an element takes it out and leaves the others in their order.
\<close>

fun spec_step :: "event \<Rightarrow> jsval list \<Rightarrow> jsval list" where
  "spec_step (Add v) xs = (if can_be_held_weakly v \<and> v \<notin> set xs then xs @ [v] else xs)"
| "spec_step (Delete v) xs = removeAll v xs"
| "spec_step Clear xs = []"
| "spec_step (Reclaim a) xs = removeAll (Obj a) xs"
| "spec_step e xs = xs"

fun spec_run :: "event list \<Rightarrow> jsval list \<Rightarrow> jsval list" where
  "spec_run [] xs = xs"
| "spec_run (e # es) xs = spec_run es (spec_step e xs)"

text \<open>
  The invariant of the three structures and the heap around them: the token
  map has no key twice; the WeakMap sends an element to a WeakRef that targets
  it, and that WeakRef is a key of the token map if the element converts to
  \<open>true\<close>; a key of the token map whose WeakRef still resolves is the
  WeakMap's WeakRef for that element; no WeakRef resolves to a reclaimed
  element; every identity in use was handed out by the allocator; and the
  target of a registry cell agrees with the target of the WeakRef it holds.
\<close>

definition iws_inv :: "iws \<Rightarrow> bool" where
  "iws_inv s \<longleftrightarrow>
     distinct (keys_of (tokens s))
   \<and> (\<forall>a r. refs s a = Some r \<longrightarrow>
          weakref_target s r = Some a
        \<and> (to_boolean (Obj a) \<longrightarrow> r \<in> set (keys_of (tokens s))))
   \<and> (\<forall>r a. r \<in> set (keys_of (tokens s)) \<longrightarrow> weakref_target s r = Some a \<longrightarrow>
          refs s a = Some r)
   \<and> (\<forall>r a. weakref_target s r = Some a \<longrightarrow> a \<notin> reclaimed s \<and> r < next_id s)
   \<and> (\<forall>r \<in> set (keys_of (tokens s)). r < next_id s)
   \<and> (\<forall>c \<in> set (registry s).
          held_value c < next_id s \<and> weakref_target s (held_value c) = cell_target c)"

section \<open>Facts about the host collections\<close>

lemma length_map_delete [simp]: "length (map_delete k es) = length es"
  by (induction k es rule: map_delete.induct) auto

lemma keys_of_append [simp]: "keys_of (es @ fs) = keys_of es @ keys_of fs"
  by (induction es rule: keys_of.induct) auto

lemma keys_of_map_delete: "keys_of (map_delete k es) = remove1 k (keys_of es)"
  by (induction k es rule: map_delete.induct) auto

lemma map_set_fresh: "k \<notin> set (keys_of es) \<Longrightarrow> map_set k v es = es @ [Some (k, v)]"
  by (induction k v es rule: map_set.induct) auto

lemma map_get_None_iff: "map_get k es = None \<longleftrightarrow> k \<notin> set (keys_of es)"
  by (induction k es rule: map_get.induct) auto

lemma map_get_map_set: "map_get k (map_set k v es) = Some v"
  by (induction k v es rule: map_set.induct) auto

lemma drop_map_delete:
  "i < length es \<Longrightarrow> es ! i = Some (r, t) \<Longrightarrow> drop (Suc i) (map_delete r es) = drop (Suc i) es"
proof (induction r es arbitrary: i rule: map_delete.induct)
  case (1 k)
  then show ?case by simp
next
  case (2 k es)
  then show ?case by (cases i) auto
next
  case (3 k k' v es)
  then show ?case by (cases i) auto
qed

lemma nth_keys_of: "i < length es \<Longrightarrow> es ! i = Some (r, t) \<Longrightarrow> r \<in> set (keys_of es)"
proof (induction es arbitrary: i rule: keys_of.induct)
  case 1
  then show ?case by simp
next
  case (2 es)
  then show ?case by (cases i) auto
next
  case (3 k v es)
  then show ?case by (cases i) auto
qed

lemma map_delete_nth:
  "distinct (keys_of es) \<Longrightarrow> i < length es \<Longrightarrow> es ! i = Some (r, t) \<Longrightarrow>
   map_delete r es = es[i := None]"
proof (induction r es arbitrary: i rule: map_delete.induct)
  case (1 k)
  then show ?case by simp
next
  case (2 k es)
  then show ?case by (cases i) auto
next
  case (3 k k' v es)
  then show ?case by (cases i) (auto dest: nth_keys_of)
qed

lemma has_Obj [simp]: "has (Obj a) s = (Inr (refs s a \<noteq> None), s)"
  by (simp add: has_def)

lemma has_primitive: "\<not> can_be_held_weakly v \<Longrightarrow> has v s = (Inr False, s)"
  by (cases v) (simp_all add: has_def)

lemma add_primitive:
  "\<not> can_be_held_weakly v \<Longrightarrow> add v s = (Inl TypeError, s\<lparr>next_id := Suc (next_id s)\<rparr>)"
  by (cases v) (simp_all add: add_def has_def Let_def)

lemma add_Obj:
  "add (Obj a) s =
    (if refs s a \<noteq> None then (Inr (), s)
     else (Inr (), s\<lparr>refs := (refs s)(a \<mapsto> Suc (next_id s)),
                    tokens := map_set (Suc (next_id s)) (next_id s) (tokens s),
                    registry := registry s @ [\<lparr>cell_target = Some a, held_value = Suc (next_id s),
                                              unregister_token = next_id s\<rparr>],
                    weakref_target := (weakref_target s)(Suc (next_id s) \<mapsto> a),
                    next_id := Suc (Suc (next_id s))\<rparr>))"
  by (simp add: add_def Let_def)

lemma delete_primitive: "\<not> can_be_held_weakly v \<Longrightarrow> delete v s = (Inr False, s)"
  by (cases v) (simp_all add: delete_def)

lemma delete_Obj:
  "delete (Obj a) s =
    (case refs s a of
       None \<Rightarrow> (Inr False, s)
     | Some r \<Rightarrow>
        (case map_get r (tokens s) of
           None \<Rightarrow> (Inl TypeError, s\<lparr>refs := (refs s)(a := None)\<rparr>)
         | Some t \<Rightarrow> (Inr True, s\<lparr>refs := (refs s)(a := None),
                                  tokens := map_delete r (tokens s),
                                  registry := unregister_cells t (registry s)\<rparr>)))"
  by (simp add: delete_def Let_def split: option.splits)

section \<open>What a traversal yields\<close>

lemma live_from_0: "live_from s 0 = live_elems s"
  by (simp add: live_from_def live_elems_def)

lemma live_from_end: "length (tokens s) \<le> i \<Longrightarrow> live_from s i = []"
  by (simp add: live_from_def)

lemma live_from_None:
  "i < length (tokens s) \<Longrightarrow> tokens s ! i = None \<Longrightarrow> live_from s i = live_from s (Suc i)"
  by (simp add: live_from_def flip: Cons_nth_drop_Suc)

lemma live_from_Some:
  "i < length (tokens s) \<Longrightarrow> tokens s ! i = Some (r, t) \<Longrightarrow>
   live_from s i = (if to_boolean (deref s r) then [deref s r] else []) @ live_from s (Suc i)"
  by (simp add: live_from_def flip: Cons_nth_drop_Suc)

lemma deref_prune [simp]: "deref (prune r t s) = deref s"
  by (rule ext) (simp add: deref_def prune_def)

lemma live_from_prune:
  "i < length (tokens s) \<Longrightarrow> tokens s ! i = Some (r, t) \<Longrightarrow>
   live_from (prune r t s) (Suc i) = live_from s (Suc i)"
  by (simp add: live_from_def drop_map_delete) (simp add: prune_def drop_map_delete)

lemma iter_next_run:
  assumes "iter_next s i = (res, s', i')"
    and "P s"
    and "\<And>s r t j. P s \<Longrightarrow> j < length (tokens s) \<Longrightarrow> tokens s ! j = Some (r, t) \<Longrightarrow>
           stale s r \<Longrightarrow> P (prune r t s)"
  shows "P s'"
  using assms(1,2)
proof (induction s i rule: iter_next.induct)
  case (1 s i)
  show ?case
  proof (cases "length (tokens s) \<le> i")
    case True
    with "1.prems" show ?thesis by (simp add: iter_next.simps [of s i])
  next
    case False
    note inb = this
    show ?thesis
    proof (cases "tokens s ! i")
      case None
      with inb "1.prems"(1) have "iter_next s (Suc i) = (res, s', i')"
        by (simp add: iter_next.simps [of s i])
      with "1.IH"(1) [OF inb None] "1.prems"(2) show ?thesis by simp
    next
      case (Some e)
      obtain r t where e: "e = (r, t)" by (cases e)
      show ?thesis
      proof (cases "to_boolean (deref s r)")
        case True
        with inb Some e "1.prems" show ?thesis
          by (auto simp: Let_def iter_next.simps [of s i])
      next
        case False
        with inb Some e "1.prems"(1)
        have run: "iter_next (prune r t s) (Suc i) = (res, s', i')"
          by (simp add: Let_def iter_next.simps [of s i])
        from inb have "i < length (tokens s)" by simp
        with "1.prems"(2) Some e False have "P (prune r t s)"
          by (intro assms(3)) (simp_all add: stale_def)
        with "1.IH"(2) [OF inb Some [unfolded e] refl refl False] run
        show ?thesis by simp
      qed
    qed
  qed
qed

lemma iter_next_yield:
  "iter_next s i = (res, s', i') \<Longrightarrow>
   live_from s i = (case res of None \<Rightarrow> [] | Some v \<Rightarrow> v # live_from s' i')"
proof (induction s i rule: iter_next.induct)
  case (1 s i)
  show ?case
  proof (cases "length (tokens s) \<le> i")
    case True
    with "1.prems" show ?thesis by (auto simp: iter_next.simps [of s i] live_from_end)
  next
    case False
    note inb = this
    then have lt: "i < length (tokens s)" by simp
    show ?thesis
    proof (cases "tokens s ! i")
      case None
      with inb "1.prems"(1) have "iter_next s (Suc i) = (res, s', i')"
        by (simp add: iter_next.simps [of s i])
      with "1.IH"(1) [OF inb None] show ?thesis by (simp add: live_from_None [OF lt None])
    next
      case (Some e)
      obtain r t where e: "e = (r, t)" by (cases e)
      note ent = Some [unfolded e]
      show ?thesis
      proof (cases "to_boolean (deref s r)")
        case True
        then have "live_from s i = deref s r # live_from s (Suc i)"
          by (simp add: live_from_Some [OF lt ent])
        moreover from True inb ent "1.prems"
        have "res = Some (deref s r) \<and> s' = s \<and> i' = Suc i"
          by (auto simp: Let_def iter_next.simps [of s i])
        ultimately show ?thesis by simp
      next
        case False
        with inb ent "1.prems"(1)
        have run: "iter_next (prune r t s) (Suc i) = (res, s', i')"
          by (simp add: Let_def iter_next.simps [of s i])
        with "1.IH"(2) [OF inb ent refl refl False]
        show ?thesis
          by (simp add: live_from_Some [OF lt ent] False live_from_prune [OF lt ent])
      qed
    qed
  qed
qed

lemma iterate_from_yields: "fst (iterate_from s i) = live_from s i"
proof (induction s i rule: iterate_from.induct)
  case (1 s i)
  obtain res s' i' where run: "iter_next s i = (res, s', i')" by (cases "iter_next s i")
  show ?case
  proof (cases res)
    case None
    with run iter_next_yield [OF run] show ?thesis
      by (simp add: iterate_from.simps [of s i])
  next
    case (Some v)
    with run "1.IH" [OF run [unfolded Some, symmetric] refl refl]
      iter_next_yield [OF run]
    show ?thesis
      by (auto simp: iterate_from.simps [of s i] split: prod.splits)
  qed
qed

lemma iterate_from_run:
  assumes "P s"
    and "\<And>s r t j. P s \<Longrightarrow> j < length (tokens s) \<Longrightarrow> tokens s ! j = Some (r, t) \<Longrightarrow>
           stale s r \<Longrightarrow> P (prune r t s)"
  shows "P (snd (iterate_from s i))"
  using assms(1)
proof (induction s i rule: iterate_from.induct)
  case (1 s i)
  obtain res s' i' where run: "iter_next s i = (res, s', i')" by (cases "iter_next s i")
  have P': "P s'" using run "1.prems" assms(2) by (rule iter_next_run)
  show ?case
  proof (cases res)
    case None
    with run P' show ?thesis
      by (simp add: iterate_from.simps [of s i])
  next
    case (Some v)
    with run "1.IH" [OF run [unfolded Some, symmetric] refl refl P']
    show ?thesis
      by (auto simp: iterate_from.simps [of s i] split: prod.splits)
  qed
qed

section \<open>The invariant is kept\<close>

lemma stale_empty: "weakref_target s r = None \<Longrightarrow> stale s r"
  by (simp add: stale_def deref_def)

lemma stale_target:
  "stale s r \<Longrightarrow> weakref_target s r = Some a \<Longrightarrow> \<not> to_boolean (Obj a)"
  by (simp add: stale_def deref_def)

lemma iws_invI:
  assumes "distinct (keys_of (tokens s))"
    and "\<And>a r. refs s a = Some r \<Longrightarrow> weakref_target s r = Some a"
    and "\<And>a r. refs s a = Some r \<Longrightarrow> to_boolean (Obj a) \<Longrightarrow> r \<in> set (keys_of (tokens s))"
    and "\<And>r a. r \<in> set (keys_of (tokens s)) \<Longrightarrow> weakref_target s r = Some a \<Longrightarrow> refs s a = Some r"
    and "\<And>r a. weakref_target s r = Some a \<Longrightarrow> a \<notin> reclaimed s"
    and "\<And>r a. weakref_target s r = Some a \<Longrightarrow> r < next_id s"
    and "\<And>r. r \<in> set (keys_of (tokens s)) \<Longrightarrow> r < next_id s"
    and "\<And>c. c \<in> set (registry s) \<Longrightarrow> held_value c < next_id s"
    and "\<And>c. c \<in> set (registry s) \<Longrightarrow> weakref_target s (held_value c) = cell_target c"
  shows "iws_inv s"
  unfolding iws_inv_def using assms by blast

lemma inv_distinct: "iws_inv s \<Longrightarrow> distinct (keys_of (tokens s))"
  unfolding iws_inv_def by blast

lemma inv_refs_target: "iws_inv s \<Longrightarrow> refs s a = Some r \<Longrightarrow> weakref_target s r = Some a"
  unfolding iws_inv_def by blast

lemma inv_refs_key:
  "iws_inv s \<Longrightarrow> refs s a = Some r \<Longrightarrow> to_boolean (Obj a) \<Longrightarrow>
   r \<in> set (keys_of (tokens s))"
  unfolding iws_inv_def by blast

lemma inv_key_refs:
  "iws_inv s \<Longrightarrow> r \<in> set (keys_of (tokens s)) \<Longrightarrow> weakref_target s r = Some a \<Longrightarrow>
   refs s a = Some r"
  unfolding iws_inv_def by blast

lemma inv_target_live: "iws_inv s \<Longrightarrow> weakref_target s r = Some a \<Longrightarrow> a \<notin> reclaimed s"
  unfolding iws_inv_def by blast

lemma inv_target_bound: "iws_inv s \<Longrightarrow> weakref_target s r = Some a \<Longrightarrow> r < next_id s"
  unfolding iws_inv_def by blast

lemma inv_key_bound: "iws_inv s \<Longrightarrow> r \<in> set (keys_of (tokens s)) \<Longrightarrow> r < next_id s"
  unfolding iws_inv_def by blast

lemma inv_cell_bound: "iws_inv s \<Longrightarrow> c \<in> set (registry s) \<Longrightarrow> held_value c < next_id s"
  unfolding iws_inv_def by blast

lemma inv_cell_target:
  "iws_inv s \<Longrightarrow> c \<in> set (registry s) \<Longrightarrow> weakref_target s (held_value c) = cell_target c"
  unfolding iws_inv_def by blast

lemma inv_new: "iws_inv new_iws"
  by (rule iws_invI) (simp_all add: new_iws_def)

lemma inv_drop_stale:
  assumes inv: "iws_inv s" and st: "stale s r"
    and sub: "set cs \<subseteq> set (registry s)"
  shows "iws_inv (s\<lparr>tokens := map_delete r (tokens s), registry := cs\<rparr>)"
proof (rule iws_invI)
  let ?s = "s\<lparr>tokens := map_delete r (tokens s), registry := cs\<rparr>"
  have keys: "set (keys_of (tokens ?s)) = set (keys_of (tokens s)) - {r}"
    using inv_distinct [OF inv] by (simp add: keys_of_map_delete)
  show "distinct (keys_of (tokens ?s))"
    using inv_distinct [OF inv] by (simp add: keys_of_map_delete)
  show "weakref_target ?s r' = Some a" if "refs ?s a = Some r'" for a r'
    using that inv_refs_target [OF inv] by simp
  show "r' \<in> set (keys_of (tokens ?s))" if "refs ?s a = Some r'" "to_boolean (Obj a)" for a r'
  proof -
    from that have old: "refs s a = Some r'" by simp
    from inv_refs_target [OF inv old] stale_target [OF st, of a] that(2)
    have "r' \<noteq> r" by auto
    with inv_refs_key [OF inv old that(2)] keys show ?thesis by simp
  qed
  show "refs ?s a = Some r'"
    if "r' \<in> set (keys_of (tokens ?s))" "weakref_target ?s r' = Some a" for r' a
    using that keys inv_key_refs [OF inv, of r' a] by simp
  show "a \<notin> reclaimed ?s" if "weakref_target ?s r' = Some a" for r' a
    using that inv_target_live [OF inv, of r' a] by simp
  show "r' < next_id ?s" if "weakref_target ?s r' = Some a" for r' a
    using that inv_target_bound [OF inv, of r' a] by simp
  show "r' < next_id ?s" if "r' \<in> set (keys_of (tokens ?s))" for r'
    using that keys inv_key_bound [OF inv, of r'] by simp
  show "held_value c < next_id ?s" if "c \<in> set (registry ?s)" for c
    using that sub inv_cell_bound [OF inv, of c] by auto
  show "weakref_target ?s (held_value c) = cell_target c" if "c \<in> set (registry ?s)" for c
    using that sub inv_cell_target [OF inv, of c] by auto
qed

lemma inv_prune:
  "iws_inv s \<Longrightarrow> stale s r \<Longrightarrow> iws_inv (prune r t s)"
  unfolding prune_def
  by (rule inv_drop_stale) (auto simp: unregister_cells_def)

lemma inv_fire: "iws_inv s \<Longrightarrow> iws_inv (fire k s)"
proof (cases "k < length (registry s) \<and> cell_target (registry s ! k) = None")
  case False
  assume "iws_inv s"
  with False show ?thesis by (auto simp: fire_def)
next
  case True
  assume inv: "iws_inv s"
  let ?c = "registry s ! k"
  let ?cs = "take k (registry s) @ drop (Suc k) (registry s)"
  from True have "?c \<in> set (registry s)" by simp
  with inv True have "weakref_target s (held_value ?c) = None"
    by (simp add: inv_cell_target)
  then have "stale s (held_value ?c)" by (rule stale_empty)
  moreover have "set ?cs \<subseteq> set (registry s)"
    by (auto dest: in_set_takeD in_set_dropD)
  ultimately have "iws_inv (s\<lparr>tokens := map_delete (held_value ?c) (tokens s), registry := ?cs\<rparr>)"
    using inv by (intro inv_drop_stale)
  moreover have "fire k s = s\<lparr>tokens := map_delete (held_value ?c) (tokens s), registry := ?cs\<rparr>"
    using True by (simp add: fire_def cleanup_callback_def)
  ultimately show ?thesis by simp
qed

lemma inv_reclaim:
  assumes inv: "iws_inv s"
  shows "iws_inv (reclaim a s)"
proof (rule iws_invI)
  let ?s = "reclaim a s"
  have tgt: "weakref_target ?s r = Some b \<longleftrightarrow> weakref_target s r = Some b \<and> b \<noteq> a" for r b
    by (auto simp: reclaim_def)
  have rf: "refs ?s b = Some r \<longleftrightarrow> refs s b = Some r \<and> b \<noteq> a" for r b
    by (auto simp: reclaim_def)
  have tk: "tokens ?s = tokens s" by (simp add: reclaim_def)
  show "distinct (keys_of (tokens ?s))"
    using inv_distinct [OF inv] by (simp add: tk)
  show "weakref_target ?s r = Some b" if "refs ?s b = Some r" for b r
    using that inv_refs_target [OF inv, of b r] by (simp add: tgt rf)
  show "r \<in> set (keys_of (tokens ?s))" if "refs ?s b = Some r" "to_boolean (Obj b)" for b r
    using that inv_refs_key [OF inv, of b r] by (simp add: tk rf)
  show "refs ?s b = Some r"
    if "r \<in> set (keys_of (tokens ?s))" "weakref_target ?s r = Some b" for r b
    using that inv_key_refs [OF inv, of r b] by (simp add: tk tgt rf)
  show "b \<notin> reclaimed ?s" if "weakref_target ?s r = Some b" for r b
    using that inv_target_live [OF inv, of r b] by (simp add: tgt) (simp add: reclaim_def)
  show "r < next_id ?s" if "weakref_target ?s r = Some b" for r b
    using that inv_target_bound [OF inv, of r b] by (simp add: tgt) (simp add: reclaim_def)
  show "r < next_id ?s" if "r \<in> set (keys_of (tokens ?s))" for r
    using that inv_key_bound [OF inv, of r] by (simp add: tk) (simp add: reclaim_def)
  show "held_value c < next_id ?s" if "c \<in> set (registry ?s)" for c
    using that inv_cell_bound [OF inv] by (auto simp: reclaim_def)
  show "weakref_target ?s (held_value c) = cell_target c" if "c \<in> set (registry ?s)" for c
  proof -
    from that obtain c0 where c0: "c0 \<in> set (registry s)"
      and c: "c = (if cell_target c0 = Some a then c0\<lparr>cell_target := None\<rparr> else c0)"
      by (auto simp: reclaim_def)
    from inv_cell_target [OF inv c0] c show ?thesis
      by (auto simp: reclaim_def)
  qed
qed

lemma inv_bump: 
  assumes inv: "iws_inv s"
  shows "iws_inv (s\<lparr>next_id := Suc (next_id s)\<rparr>)"
proof (rule iws_invI)
  let ?s = "s\<lparr>next_id := Suc (next_id s)\<rparr>"
  show "distinct (keys_of (tokens ?s))"
    using inv_distinct [OF inv] by simp
  show "weakref_target ?s r = Some b" if "refs ?s b = Some r" for b r
    using that inv_refs_target [OF inv, of b r] by simp
  show "r \<in> set (keys_of (tokens ?s))" if "refs ?s b = Some r" "to_boolean (Obj b)" for b r
    using that inv_refs_key [OF inv, of b r] by simp
  show "refs ?s b = Some r"
    if "r \<in> set (keys_of (tokens ?s))" "weakref_target ?s r = Some b" for r b
    using that inv_key_refs [OF inv, of r b] by simp
  show "b \<notin> reclaimed ?s" if "weakref_target ?s r = Some b" for r b
    using that inv_target_live [OF inv, of r b] by simp
  show "r < next_id ?s" if "weakref_target ?s r = Some b" for r b
    using that inv_target_bound [OF inv, of r b] by simp
  show "r < next_id ?s" if "r \<in> set (keys_of (tokens ?s))" for r
    using that inv_key_bound [OF inv, of r] by simp
  show "held_value c < next_id ?s" if "c \<in> set (registry ?s)" for c
    using that inv_cell_bound [OF inv, of c] by simp
  show "weakref_target ?s (held_value c) = cell_target c" if "c \<in> set (registry ?s)" for c
    using that inv_cell_target [OF inv, of c] by simp
qed

lemma inv_add_fresh:
  assumes inv: "iws_inv s" and absent: "refs s a = None" and live: "a \<notin> reclaimed s"
  shows "iws_inv (snd (add (Obj a) s))"
proof (rule iws_invI)
  let ?n = "next_id s"
  let ?s = "snd (add (Obj a) s)"
  have fresh: "Suc ?n \<notin> set (keys_of (tokens s))"
    using inv_key_bound [OF inv, of "Suc ?n"] by auto
  have tk: "tokens ?s = tokens s @ [Some (Suc ?n, ?n)]"
    using absent fresh by (simp add: add_Obj map_set_fresh)
  have keys: "keys_of (tokens ?s) = keys_of (tokens s) @ [Suc ?n]"
    by (simp add: tk)
  have tgt: "weakref_target ?s = (weakref_target s)(Suc ?n \<mapsto> a)"
    using absent by (simp add: add_Obj)
  have rf: "refs ?s = (refs s)(a \<mapsto> Suc ?n)"
    using absent by (simp add: add_Obj)
  have nx: "next_id ?s = Suc (Suc ?n)"
    using absent by (simp add: add_Obj)
  have rc: "reclaimed ?s = reclaimed s"
    using absent by (simp add: add_Obj)
  have rg: "registry ?s = registry s @ [\<lparr>cell_target = Some a, held_value = Suc ?n,
                                            unregister_token = ?n\<rparr>]"
    using absent by (simp add: add_Obj)
  have unalloc: "weakref_target s (Suc ?n) = None"
    using inv_target_bound [OF inv, of "Suc ?n"] by (cases "weakref_target s (Suc ?n)") auto
  show "distinct (keys_of (tokens ?s))"
    using inv_distinct [OF inv] fresh by (simp add: keys)
  show "weakref_target ?s r = Some b" if "refs ?s b = Some r" for b r
  proof (cases "b = a")
    case True
    with that have "r = Suc ?n" by (simp only: rf) simp
    with True show ?thesis by (simp only: tgt) simp
  next
    case False
    with that have old: "refs s b = Some r" by (simp add: rf)
    from inv_target_bound [OF inv inv_refs_target [OF inv old]] have "r \<noteq> Suc ?n" by auto
    with inv_refs_target [OF inv old] show ?thesis by (simp add: tgt)
  qed
  show "r \<in> set (keys_of (tokens ?s))" if "refs ?s b = Some r" "to_boolean (Obj b)" for b r
    using that inv_refs_key [OF inv, of b r] by (auto simp: rf keys split: if_splits)
  show "refs ?s b = Some r"
    if "r \<in> set (keys_of (tokens ?s))" "weakref_target ?s r = Some b" for r b
  proof (cases "r = Suc ?n")
    case True
    with that(2) have "b = a" by (simp add: tgt)
    then have "refs ?s b = Some (Suc ?n)" by (simp only: rf) simp
    with True show ?thesis by simp
  next
    case False
    with that have k: "r \<in> set (keys_of (tokens s))" and t: "weakref_target s r = Some b"
      by (simp_all add: keys tgt)
    from inv_key_refs [OF inv k t] absent have "b \<noteq> a" by auto
    with inv_key_refs [OF inv k t] show ?thesis by (simp add: rf)
  qed
  show "b \<notin> reclaimed ?s" if "weakref_target ?s r = Some b" for r b
    using that live inv_target_live [OF inv, of r b] by (auto simp: tgt rc split: if_splits)
  show "r < next_id ?s" if "weakref_target ?s r = Some b" for r b
    using that inv_target_bound [OF inv, of r b] by (auto simp: tgt nx split: if_splits)
  show "r < next_id ?s" if "r \<in> set (keys_of (tokens ?s))" for r
    using that inv_key_bound [OF inv, of r] by (auto simp: keys nx)
  show "held_value c < next_id ?s" if "c \<in> set (registry ?s)" for c
    using that inv_cell_bound [OF inv, of c] by (auto simp: rg nx)
  show "weakref_target ?s (held_value c) = cell_target c" if "c \<in> set (registry ?s)" for c
  proof (cases "c \<in> set (registry s)")
    case True
    from inv_cell_bound [OF inv True] have "held_value c \<noteq> Suc ?n" by auto
    with inv_cell_target [OF inv True] show ?thesis by (simp add: tgt)
  next
    case False
    with that show ?thesis by (auto simp: rg tgt)
  qed
qed

lemma inv_add:
  assumes "iws_inv s" and "held_by_caller v s"
  shows "iws_inv (snd (add v s))"
proof (cases v)
  case (Obj a)
  show ?thesis
  proof (cases "refs s a")
    case None
    with assms Obj show ?thesis by (simp add: inv_add_fresh)
  next
    case (Some r)
    with assms Obj show ?thesis by (simp add: add_Obj)
  qed
qed (use assms in \<open>simp_all add: add_primitive inv_bump\<close>)

lemma inv_has: "iws_inv s \<Longrightarrow> iws_inv (snd (has v s))"
  by (simp add: has_def)

lemma map_delete_absent: "k \<notin> set (keys_of es) \<Longrightarrow> map_delete k es = es"
  by (induction k es rule: map_delete.induct) auto

text \<open>
  What \<open>delete\<close> does to a present element, on both paths: the WeakMap forgets
  the element and the token map loses the key, if it had it. When the lookup
  fails the method throws before it touches the token map or the registry.
\<close>

lemma delete_present:
  assumes "refs s a = Some r"
  shows "\<exists>cs. set cs \<subseteq> set (registry s) \<and>
           snd (delete (Obj a) s) = s\<lparr>refs := (refs s)(a := None),
                                         tokens := map_delete r (tokens s),
                                         registry := cs\<rparr>"
proof (cases "map_get r (tokens s)")
  case None
  then have "map_delete r (tokens s) = tokens s"
    by (simp add: map_get_None_iff map_delete_absent)
  with None assms show ?thesis
    by (intro exI [of _ "registry s"]) (simp add: delete_Obj)
next
  case (Some t)
  with assms show ?thesis
    by (intro exI [of _ "unregister_cells t (registry s)"])
       (auto simp: delete_Obj unregister_cells_def)
qed

lemma delete_returns:
  assumes "refs s a = Some r" and "r \<in> set (keys_of (tokens s))"
  shows "fst (delete (Obj a) s) = Inr True"
proof -
  from assms(2) obtain t where "map_get r (tokens s) = Some t"
    using map_get_None_iff [of r "tokens s"] by (cases "map_get r (tokens s)") auto
  with assms(1) show ?thesis by (simp add: delete_Obj)
qed

lemma delete_throws:
  assumes "refs s a = Some r" and "r \<notin> set (keys_of (tokens s))"
  shows "fst (delete (Obj a) s) = Inl TypeError"
proof -
  from assms(2) have "map_get r (tokens s) = None" by (simp add: map_get_None_iff)
  with assms(1) show ?thesis by (simp add: delete_Obj)
qed

lemma inv_delete_present:
  assumes inv: "iws_inv s" and present: "refs s a = Some r"
    and sub: "set cs \<subseteq> set (registry s)"
  shows "iws_inv (s\<lparr>refs := (refs s)(a := None), tokens := map_delete r (tokens s),
                   registry := cs\<rparr>)"
proof (rule iws_invI)
  let ?s = "s\<lparr>refs := (refs s)(a := None), tokens := map_delete r (tokens s),
              registry := cs\<rparr>"
  have keys: "set (keys_of (tokens ?s)) = set (keys_of (tokens s)) - {r}"
    using inv_distinct [OF inv] by (simp add: keys_of_map_delete)
  have ra: "weakref_target s r = Some a"
    using inv_refs_target [OF inv present] .
  show "distinct (keys_of (tokens ?s))"
    using inv_distinct [OF inv] by (simp add: keys_of_map_delete)
  show "weakref_target ?s r' = Some b" if "refs ?s b = Some r'" for b r'
    using that inv_refs_target [OF inv, of b r'] by (simp split: if_splits)
  show "r' \<in> set (keys_of (tokens ?s))" if "refs ?s b = Some r'" "to_boolean (Obj b)" for b r'
  proof -
    from that have b: "b \<noteq> a" and old: "refs s b = Some r'" by (simp_all split: if_splits)
    from inv_refs_target [OF inv old] ra b have "r' \<noteq> r" by auto
    with inv_refs_key [OF inv old that(2)] keys show ?thesis by simp
  qed
  show "refs ?s b = Some r'"
    if "r' \<in> set (keys_of (tokens ?s))" "weakref_target ?s r' = Some b" for r' b
  proof -
    from that keys have k: "r' \<in> set (keys_of (tokens s))" and ne: "r' \<noteq> r"
      and t: "weakref_target s r' = Some b" by simp_all
    from inv_key_refs [OF inv k t] present ne have "b \<noteq> a" by auto
    with inv_key_refs [OF inv k t] show ?thesis by simp
  qed
  show "b \<notin> reclaimed ?s" if "weakref_target ?s r' = Some b" for r' b
    using that inv_target_live [OF inv, of r' b] by simp
  show "r' < next_id ?s" if "weakref_target ?s r' = Some b" for r' b
    using that inv_target_bound [OF inv, of r' b] by simp
  show "r' < next_id ?s" if "r' \<in> set (keys_of (tokens ?s))" for r'
    using that keys inv_key_bound [OF inv, of r'] by simp
  show "held_value c < next_id ?s" if "c \<in> set (registry ?s)" for c
    using that sub inv_cell_bound [OF inv, of c] by auto
  show "weakref_target ?s (held_value c) = cell_target c" if "c \<in> set (registry ?s)" for c
    using that sub inv_cell_target [OF inv, of c] by auto
qed

lemma inv_delete:
  assumes inv: "iws_inv s"
  shows "iws_inv (snd (delete v s))"
proof (cases v)
  case (Obj a)
  show ?thesis
  proof (cases "refs s a")
    case None
    with inv Obj show ?thesis by (simp add: delete_Obj)
  next
    case (Some r)
    from delete_present [OF Some] obtain cs where "set cs \<subseteq> set (registry s)"
      and "snd (delete (Obj a) s) = s\<lparr>refs := (refs s)(a := None),
             tokens := map_delete r (tokens s), registry := cs\<rparr>"
      by blast
    with inv_delete_present [OF inv Some, of cs] Obj show ?thesis by simp
  qed
qed (use inv in \<open>simp_all add: delete_primitive\<close>)

lemma inv_iter_next:
  assumes "iws_inv s"
  shows "iws_inv (fst (snd (iter_next s i)))"
proof -
  obtain res s' i' where run: "iter_next s i = (res, s', i')" by (cases "iter_next s i")
  from run assms have "iws_inv s'"
    by (rule iter_next_run) (rule inv_prune)
  with run show ?thesis by simp
qed

lemma inv_iterate: "iws_inv s \<Longrightarrow> iws_inv (snd (iterate s))"
  unfolding iterate_def by (erule iterate_from_run) (rule inv_prune)

lemma clear_from_run:
  assumes "P s"
    and "\<And>s r t j. P s \<Longrightarrow> j < length (tokens s) \<Longrightarrow> tokens s ! j = Some (r, t) \<Longrightarrow>
           stale s r \<Longrightarrow> P (prune r t s)"
    and "\<And>s v. P s \<Longrightarrow> P (snd (delete v s))"
  shows "P (snd (clear_from s i))"
  using assms(1)
proof (induction s i rule: clear_from.induct)
  case (1 s i)
  obtain res s' i' where run: "iter_next s i = (res, s', i')" by (cases "iter_next s i")
  have P': "P s'" using run "1.prems" assms(2) by (rule iter_next_run)
  show ?case
  proof (cases res)
    case None
    with run P' show ?thesis
      by (simp add: clear_from.simps [of s i])
  next
    case (Some v)
    obtain out s'' where del: "delete v s' = (out, s'')" by (cases "delete v s'")
    from assms(3) [OF P', of v] del have P'': "P s''" by simp
    show ?thesis
    proof (cases out)
      case (Inl e)
      with run Some del P'' show ?thesis
        by (simp add: clear_from.simps [of s i])
    next
      case (Inr b)
      with run Some del
        "1.IH" [OF run [unfolded Some, symmetric] refl refl del [unfolded Inr, symmetric] refl P'']
      show ?thesis
        by (simp add: clear_from.simps [of s i])
    qed
  qed
qed

lemma inv_clear: "iws_inv s \<Longrightarrow> iws_inv (snd (clear s))"
  unfolding clear_def by (erule clear_from_run) (auto intro: inv_prune inv_delete)

lemma inv_step: "iws_inv s \<Longrightarrow> allowed e s \<Longrightarrow> iws_inv (step e s)"
  by (cases e)
     (simp_all add: inv_has inv_add inv_delete inv_clear inv_iter_next inv_iterate
        inv_reclaim inv_fire)

lemma inv_exec: "iws_inv s \<Longrightarrow> trace_ok es s \<Longrightarrow> iws_inv (exec es s)"
  by (induction es arbitrary: s) (simp_all add: inv_step)

lemma inv_reachable: "trace_ok es new_iws \<Longrightarrow> iws_inv (exec es new_iws)"
  by (rule inv_exec [OF inv_new])

section \<open>Each event against the specification's view\<close>

lemma deref_cases: "deref s r = Undefined \<and> weakref_target s r = None
    \<or> (\<exists>a. deref s r = Obj a \<and> weakref_target s r = Some a)"
  by (cases "weakref_target s r") (simp_all add: deref_def)

lemma deref_eq_Obj [simp]: "deref s r = Obj a \<longleftrightarrow> weakref_target s r = Some a"
  by (cases "weakref_target s r") (simp_all add: deref_def)

lemma Obj_eq_deref [simp]: "Obj a = deref s r \<longleftrightarrow> weakref_target s r = Some a"
  by (cases "weakref_target s r") (auto simp: deref_def)

lemma deref_cong: "weakref_target s' = weakref_target s \<Longrightarrow> deref s' = deref s"
  by (rule ext) (simp add: deref_def)

lemma live_elems_cong:
  "tokens s' = tokens s \<Longrightarrow> weakref_target s' = weakref_target s \<Longrightarrow>
   live_elems s' = live_elems s"
  using deref_cong [of s' s] by (simp add: live_elems_def)

lemma to_boolean_derefD:
  "to_boolean (deref s r) \<Longrightarrow> \<exists>a. weakref_target s r = Some a \<and> to_boolean (Obj a)"
  by (cases "weakref_target s r") (simp_all add: deref_def)

lemma live_elems_true: "v \<in> set (live_elems s) \<Longrightarrow> to_boolean v"
  by (simp add: live_elems_def)

lemma live_elems_Obj: "v \<in> set (live_elems s) \<Longrightarrow> \<exists>a. v = Obj a"
proof -
  assume "v \<in> set (live_elems s)"
  then obtain r where "v = deref s r" "to_boolean (deref s r)"
    by (auto simp: live_elems_def)
  then show ?thesis by (cases "weakref_target s r") (simp_all add: deref_def)
qed

lemma live_elems_iff:
  "Obj a \<in> set (live_elems s) \<longleftrightarrow>
   to_boolean (Obj a) \<and> (\<exists>r \<in> set (keys_of (tokens s)). weakref_target s r = Some a)"
  by (auto simp: live_elems_def)

lemma live_present:
  assumes "iws_inv s" and "Obj a \<in> set (live_elems s)"
  shows "refs s a \<noteq> None"
  using assms(2) inv_key_refs [OF assms(1)] unfolding live_elems_iff by fastforce

lemma live_has:
  assumes "iws_inv s" and "to_boolean (Obj a)"
  shows "Obj a \<in> set (live_elems s) \<longleftrightarrow> refs s a \<noteq> None"
proof
  assume "Obj a \<in> set (live_elems s)"
  then show "refs s a \<noteq> None" by (rule live_present [OF assms(1)])
next
  assume "refs s a \<noteq> None"
  then obtain r where r: "refs s a = Some r" by auto
  from inv_refs_key [OF assms(1) r assms(2)] inv_refs_target [OF assms(1) r] assms(2)
  show "Obj a \<in> set (live_elems s)" unfolding live_elems_iff by blast
qed

lemma live_not_reclaimed:
  assumes "iws_inv s" and "Obj a \<in> set (live_elems s)"
  shows "a \<notin> reclaimed s"
  using assms(2) inv_target_live [OF assms(1)] unfolding live_elems_iff by blast

lemma live_drop_stale:
  assumes "stale s r"
    and "tokens s' = map_delete r (tokens s)" and "weakref_target s' = weakref_target s"
  shows "live_elems s' = live_elems s"
proof -
  have "filter to_boolean (map (deref s) (remove1 r ks)) = filter to_boolean (map (deref s) ks)"
    for ks
    using assms(1) by (induction ks) (auto simp: stale_def)
  with assms(2) deref_cong [OF assms(3)] show ?thesis
    by (simp add: live_elems_def keys_of_map_delete)
qed

lemma live_prune: "stale s r \<Longrightarrow> live_elems (prune r t s) = live_elems s"
  by (rule live_drop_stale [of s r]) (simp_all add: prune_def)

lemma live_fire:
  assumes "iws_inv s"
  shows "live_elems (fire k s) = live_elems s"
proof (cases "k < length (registry s) \<and> cell_target (registry s ! k) = None")
  case False
  then show ?thesis by (auto simp: fire_def)
next
  case True
  let ?c = "registry s ! k"
  from True have "?c \<in> set (registry s)" by simp
  with assms True have "weakref_target s (held_value ?c) = None"
    by (simp add: inv_cell_target)
  then have "stale s (held_value ?c)" by (rule stale_empty)
  then show ?thesis
    using True by (intro live_drop_stale [of s "held_value ?c"])
      (simp_all add: fire_def cleanup_callback_def)
qed

lemma live_reclaim: "live_elems (reclaim a s) = removeAll (Obj a) (live_elems s)"
proof -
  have d: "deref (reclaim a s) r = (if weakref_target s r = Some a then Undefined else deref s r)"
    for r
    by (simp add: deref_def reclaim_def)
  have "filter to_boolean (map (deref (reclaim a s)) ks)
      = removeAll (Obj a) (filter to_boolean (map (deref s) ks))" for ks
  proof (induction ks)
    case Nil
    show ?case by simp
  next
    case (Cons k ks)
    show ?case
    proof (cases "weakref_target s k = Some a")
      case True
      then have "deref s k = Obj a" by simp
      with True Cons show ?thesis by (simp add: d [of k])
    next
      case False
      then have "deref s k \<noteq> Obj a" by simp
      moreover from False have "deref (reclaim a s) k = deref s k" by (simp add: d)
      ultimately show ?thesis using Cons by simp
    qed
  qed
  moreover have "tokens (reclaim a s) = tokens s" by (simp add: reclaim_def)
  ultimately show ?thesis by (simp add: live_elems_def)
qed

lemma live_add_fresh:
  assumes inv: "iws_inv s" and absent: "refs s a = None"
  shows "live_elems (snd (add (Obj a) s)) = live_elems s @ filter to_boolean [Obj a]"
proof -
  let ?n = "next_id s"
  let ?s = "snd (add (Obj a) s)"
  have fresh: "Suc ?n \<notin> set (keys_of (tokens s))"
    using inv_key_bound [OF inv, of "Suc ?n"] by auto
  have keys: "keys_of (tokens ?s) = keys_of (tokens s) @ [Suc ?n]"
    using absent fresh by (simp add: add_Obj map_set_fresh)
  have tgt: "weakref_target ?s = (weakref_target s)(Suc ?n \<mapsto> a)"
    using absent by (simp add: add_Obj)
  have new: "deref ?s (Suc ?n) = Obj a"
    by (simp only: deref_eq_Obj tgt) simp
  have old: "deref ?s r = deref s r" if "r \<in> set (keys_of (tokens s))" for r
  proof -
    from that fresh have "r \<noteq> Suc ?n" by auto
    then show ?thesis by (simp add: deref_def tgt)
  qed
  have "map (deref ?s) (keys_of (tokens s)) = map (deref s) (keys_of (tokens s))"
    by (rule map_cong [OF refl]) (rule old)
  then have m: "filter to_boolean (map (deref ?s) (keys_of (tokens s)))
              = filter to_boolean (map (deref s) (keys_of (tokens s)))"
    by (rule arg_cong)
  have "live_elems ?s = filter to_boolean (map (deref ?s) (keys_of (tokens s)))
                          @ filter to_boolean [deref ?s (Suc ?n)]"
    by (simp only: live_elems_def keys map_append filter_append list.map)
  also have "\<dots> = live_elems s @ filter to_boolean [Obj a]"
    by (simp only: m new live_elems_def)
  finally show ?thesis .
qed

lemma live_add_primitive:
  assumes "\<not> can_be_held_weakly v"
  shows "live_elems (snd (add v s)) = live_elems s"
proof -
  have "live_elems (s\<lparr>next_id := Suc (next_id s)\<rparr>) = live_elems s"
    by (rule live_elems_cong) simp_all
  with assms show ?thesis by (simp add: add_primitive)
qed

lemma live_add:
  assumes inv: "iws_inv s" and abs: "live_elems s = filter to_boolean xs"
  shows "live_elems (snd (add v s)) = filter to_boolean (spec_step (Add v) xs)"
proof (cases "can_be_held_weakly v")
  case False
  with abs show ?thesis by (simp add: live_add_primitive)
next
  case True
  then obtain a where Obj: "v = Obj a" by (cases v) simp_all
  show ?thesis
  proof (cases "to_boolean (Obj a)")
    case False
    have "live_elems (snd (add (Obj a) s)) = live_elems s"
    proof (cases "refs s a")
      case None
      with live_add_fresh [OF inv None] False show ?thesis by simp
    next
      case (Some r)
      then show ?thesis by (simp add: add_Obj)
    qed
    with False abs Obj show ?thesis by simp
  next
    case truthy: True
    then have mem: "Obj a \<in> set xs \<longleftrightarrow> Obj a \<in> set (live_elems s)"
      by (simp add: abs)
    show ?thesis
    proof (cases "refs s a")
      case None
      with live_has [OF inv truthy] mem have "Obj a \<notin> set xs" by simp
      with live_add_fresh [OF inv None] truthy abs Obj show ?thesis by simp
    next
      case (Some r)
      with live_has [OF inv truthy] mem have "Obj a \<in> set xs" by simp
      with Some abs Obj show ?thesis by (simp add: add_Obj)
    qed
  qed
qed

lemma filter_map_remove1:
  assumes "distinct ks" and "\<And>k. k \<in> set ks \<Longrightarrow> f k = f r \<Longrightarrow> k = r"
  shows "filter P (map f (remove1 r ks)) = removeAll (f r) (filter P (map f ks))"
  using assms
proof (induction ks)
  case Nil
  show ?case by simp
next
  case (Cons k ks)
  show ?case
  proof (cases "k = r")
    case True
    have "f r \<notin> f ` set ks"
    proof
      assume "f r \<in> f ` set ks"
      then obtain x where x: "x \<in> set ks" "f x = f r" by auto
      with Cons.prems(2) [of x] have "x = r" by simp
      with x True Cons.prems(1) show False by simp
    qed
    then have "removeAll (f r) (filter P (map f ks)) = filter P (map f ks)"
      by (simp add: removeAll_id)
    with True show ?thesis by simp
  next
    case False
    with Cons.prems have "f k \<noteq> f r" by auto
    with False Cons show ?thesis by simp
  qed
qed

lemma live_delete_present:
  assumes inv: "iws_inv s" and present: "refs s a = Some r"
  shows "live_elems (s\<lparr>refs := (refs s)(a := None), tokens := map_delete r (tokens s),
                       registry := cs\<rparr>) = removeAll (Obj a) (live_elems s)"
proof -
  let ?s = "s\<lparr>refs := (refs s)(a := None), tokens := map_delete r (tokens s), registry := cs\<rparr>"
  have ra: "deref s r = Obj a"
    using inv_refs_target [OF inv present] by simp
  have "k = r" if "k \<in> set (keys_of (tokens s))" "deref s k = deref s r" for k
  proof -
    from that ra have "weakref_target s k = Some a" by simp
    from inv_key_refs [OF inv that(1) this] present show ?thesis by simp
  qed
  with inv_distinct [OF inv]
  have "filter to_boolean (map (deref s) (remove1 r (keys_of (tokens s))))
      = removeAll (deref s r) (filter to_boolean (map (deref s) (keys_of (tokens s))))"
    by (rule filter_map_remove1)
  moreover have "deref ?s = deref s" by (rule deref_cong) simp
  ultimately show ?thesis by (simp add: live_elems_def keys_of_map_delete ra)
qed

lemma live_delete:
  assumes inv: "iws_inv s"
  shows "live_elems (snd (delete v s)) = removeAll v (live_elems s)"
proof (cases "can_be_held_weakly v")
  case False
  with live_elems_Obj [of v s] have "v \<notin> set (live_elems s)" by auto
  with False show ?thesis by (simp add: delete_primitive removeAll_id)
next
  case True
  then obtain a where Obj: "v = Obj a" by (cases v) simp_all
  show ?thesis
  proof (cases "refs s a")
    case None
    with live_present [OF inv, of a] have "Obj a \<notin> set (live_elems s)" by auto
    with None Obj show ?thesis by (simp add: delete_Obj removeAll_id)
  next
    case (Some r)
    from delete_present [OF Some] live_delete_present [OF inv Some] Obj
    show ?thesis by auto
  qed
qed

lemma live_iter_next: "live_elems (fst (snd (iter_next s i))) = live_elems s"
proof -
  obtain res s' i' where run: "iter_next s i = (res, s', i')" by (cases "iter_next s i")
  have "live_elems s' = live_elems s"
    by (rule iter_next_run [OF run, where P = "\<lambda>x. live_elems x = live_elems s"])
       (simp_all add: live_prune)
  with run show ?thesis by simp
qed

lemma live_iterate_from: "live_elems (snd (iterate_from s i)) = live_elems s"
  by (rule iterate_from_run [where P = "\<lambda>x. live_elems x = live_elems s"])
     (simp_all add: live_prune)

lemma iterate_yields: "fst (iterate s) = live_elems s"
  by (simp add: iterate_def iterate_from_yields live_from_0)

lemma live_iterate: "live_elems (snd (iterate s)) = live_elems s"
  by (simp add: iterate_def live_iterate_from)

lemma live_split: "live_elems s = live_upto s i @ live_from s i"
proof -
  have "keys_of (tokens s) = keys_of (take i (tokens s)) @ keys_of (drop i (tokens s))"
    by (simp flip: keys_of_append)
  then show ?thesis by (simp add: live_elems_def live_upto_def live_from_def)
qed

lemma live_distinct:
  assumes inv: "iws_inv s"
  shows "distinct (live_elems s)"
proof -
  let ?ks = "filter (to_boolean \<circ> deref s) (keys_of (tokens s))"
  have "inj_on (deref s) (set ?ks)"
  proof (rule inj_onI)
    fix k1 k2
    assume k1: "k1 \<in> set ?ks" and k2: "k2 \<in> set ?ks" and eq: "deref s k1 = deref s k2"
    from k1 to_boolean_derefD [of s k1] obtain a where a: "weakref_target s k1 = Some a"
      by auto
    with eq have "weakref_target s k2 = Some a"
      by (simp add: deref_def split: option.splits)
    with a k1 k2 inv_key_refs [OF inv, of k1 a] inv_key_refs [OF inv, of k2 a]
    show "k1 = k2" by simp
  qed
  with inv_distinct [OF inv] have "distinct (map (deref s) ?ks)"
    by (simp add: distinct_map)
  then show ?thesis by (simp add: live_elems_def filter_map)
qed

lemma iter_next_position:
  "iter_next s i = (Some v, s', i') \<Longrightarrow>
   \<exists>r t j. i' = Suc j \<and> j < length (tokens s') \<and> tokens s' ! j = Some (r, t) \<and> deref s' r = v"
proof (induction s i rule: iter_next.induct)
  case (1 s i)
  show ?case
  proof (cases "length (tokens s) \<le> i")
    case True
    with "1.prems" show ?thesis by (simp add: iter_next.simps [of s i])
  next
    case False
    note inb = this
    show ?thesis
    proof (cases "tokens s ! i")
      case None
      with inb "1.prems" have "iter_next s (Suc i) = (Some v, s', i')"
        by (simp add: iter_next.simps [of s i])
      with "1.IH"(1) [OF inb None] show ?thesis by simp
    next
      case (Some e)
      obtain r t where e: "e = (r, t)" by (cases e)
      note ent = Some [unfolded e]
      show ?thesis
      proof (cases "to_boolean (deref s r)")
        case True
        with inb ent "1.prems"
        have "v = deref s r \<and> s' = s \<and> i' = Suc i"
          by (auto simp: Let_def iter_next.simps [of s i])
        with inb ent show ?thesis by auto
      next
        case False
        with inb ent "1.prems"
        have "iter_next (prune r t s) (Suc i) = (Some v, s', i')"
          by (simp add: Let_def iter_next.simps [of s i])
        with "1.IH"(2) [OF inb ent refl refl False] show ?thesis by simp
      qed
    qed
  qed
qed

lemma removeAll_middle:
  "distinct (xs @ v # ys) \<Longrightarrow> removeAll v (xs @ v # ys) = xs @ ys"
  by (simp add: removeAll_id)

lemma clear_from_live:
  "iws_inv s \<Longrightarrow>
   fst (clear_from s i) = Inr () \<and> live_elems (snd (clear_from s i)) = live_upto s i"
proof (induction s i rule: clear_from.induct)
  case (1 s i)
  note inv = "1.prems"
  obtain res s1 i1 where run: "iter_next s i = (res, s1, i1)" by (cases "iter_next s i")
  have inv1: "iws_inv s1"
    using inv_iter_next [OF inv, of i] run by simp
  have live1: "live_elems s1 = live_elems s"
    using live_iter_next [of s i] run by simp
  show ?case
  proof (cases res)
    case None
    with iter_next_yield [OF run] have "live_from s i = []" by simp
    with live1 live_split [of s i] have "live_elems s1 = live_upto s i" by simp
    with run None show ?thesis by (simp add: clear_from.simps [of s i])
  next
    case (Some v)
    with iter_next_yield [OF run] have yield: "live_from s i = v # live_from s1 i1" by simp
    with live1 live_split [of s i]
    have l1: "live_elems s1 = live_upto s i @ v # live_from s1 i1" by simp
    from iter_next_position [OF run [unfolded Some]]
    obtain r t j where pos: "i1 = Suc j" "j < length (tokens s1)" "tokens s1 ! j = Some (r, t)"
      and v: "deref s1 r = v" by blast
    from yield have "to_boolean v"
      by (metis filter_eq_ConsD live_from_def)
    with v obtain a where a: "weakref_target s1 r = Some a" and va: "v = Obj a"
      by (auto simp: deref_def split: option.splits)
    have key: "r \<in> set (keys_of (tokens s1))" using pos(2,3) by (rule nth_keys_of)
    from inv_key_refs [OF inv1 key a] have present: "refs s1 a = Some r" .
    define s2 where "s2 = snd (delete v s1)"
    from delete_present [OF present] obtain cs where
      del: "s2 = s1\<lparr>refs := (refs s1)(a := None), tokens := map_delete r (tokens s1),
                      registry := cs\<rparr>"
      unfolding s2_def va by blast
    have del2: "delete v s1 = (Inr True, s2)"
      using delete_returns [OF present key] unfolding s2_def va
      by (simp add: prod_eq_iff)
    have inv2: "iws_inv s2" unfolding s2_def by (rule inv_delete [OF inv1])
    have "live_elems s2 = removeAll v (live_elems s1)"
      unfolding s2_def by (rule live_delete [OF inv1])
    also have "\<dots> = live_upto s i @ live_from s1 i1"
      using live_distinct [OF inv1] unfolding l1 by (rule removeAll_middle)
    finally have l2: "live_elems s2 = live_upto s i @ live_from s1 i1" .
    have "drop i1 (tokens s2) = drop i1 (tokens s1)"
      using pos by (simp add: del drop_map_delete)
    moreover have "deref s2 = deref s1"
      by (intro deref_cong) (simp add: del)
    ultimately have "live_from s2 i1 = live_from s1 i1"
      by (simp add: live_from_def)
    with l2 live_split [of s2 i1] have "live_upto s2 i1 = live_upto s i" by simp
    with "1.IH" [OF run [unfolded Some, symmetric] refl refl del2 [symmetric] refl inv2]
    have "fst (clear_from s2 i1) = Inr () \<and> live_elems (snd (clear_from s2 i1)) = live_upto s i"
      by simp
    with run Some del2 show ?thesis by (simp add: clear_from.simps [of s i])
  qed
qed

lemma clear_ok: "iws_inv s \<Longrightarrow> fst (clear s) = Inr ()"
  by (simp add: clear_def clear_from_live)

lemma live_clear: "iws_inv s \<Longrightarrow> live_elems (snd (clear s)) = []"
  by (simp add: clear_def clear_from_live live_upto_def)

lemma filter_removeAll: "filter P (removeAll v xs) = removeAll v (filter P xs)"
  by (induction xs) auto

text \<open>
  What the code does with a history, told in the specification's terms: the
  live elements are the elements of the insertion-ordered set that convert
  to \<open>true\<close>.
\<close>

lemma live_step:
  assumes inv: "iws_inv s" and abs: "live_elems s = filter to_boolean xs"
  shows "live_elems (step e s) = filter to_boolean (spec_step e xs)"
proof (cases e)
  case (Has v)
  with abs show ?thesis by (simp add: has_def)
next
  case (Add v)
  with live_add [OF inv abs] show ?thesis by simp
next
  case (Delete v)
  with live_delete [OF inv, of v] abs show ?thesis by (simp add: filter_removeAll)
next
  case Clear
  with live_clear [OF inv] show ?thesis by simp
next
  case (Next i)
  with abs show ?thesis by (simp add: live_iter_next)
next
  case Traverse
  with abs show ?thesis by (simp add: live_iterate)
next
  case (Reclaim a)
  with abs show ?thesis by (simp add: live_reclaim filter_removeAll)
next
  case (Fire k)
  with live_fire [OF inv] abs show ?thesis by simp
qed

lemma live_exec:
  "iws_inv s \<Longrightarrow> trace_ok es s \<Longrightarrow> live_elems s = filter to_boolean xs \<Longrightarrow>
   live_elems (exec es s) = filter to_boolean (spec_run es xs)"
proof (induction es arbitrary: s xs)
  case Nil
  then show ?case by simp
next
  case (Cons e es)
  from Cons.prems have "iws_inv (step e s)" "trace_ok es (step e s)"
    by (simp_all add: inv_step)
  moreover from Cons.prems have "live_elems (step e s) = filter to_boolean (spec_step e xs)"
    by (intro live_step)
  ultimately show ?case using Cons.IH by simp
qed

lemma live_new: "live_elems new_iws = []"
  by (simp add: live_elems_def new_iws_def)

section \<open>Observations in terms of the live elements\<close>

lemma iter_next_in_live:
  assumes "fst (iter_next s i) = Some v"
  shows "v \<in> set (live_elems s)"
proof -
  obtain res s' i' where run: "iter_next s i = (res, s', i')" by (cases "iter_next s i")
  with assms have "res = Some v" by simp
  with iter_next_yield [OF run] have "v \<in> set (live_from s i)" by simp
  with live_split [of s i] show ?thesis by simp
qed

lemma size_counts: "fst (size_iws s) = length (live_elems s)"
  by (simp add: size_iws_def iterate_yields [symmetric] split: prod.splits)

lemma entries_pairs: "fst (entries s) = map (\<lambda>v. (v, v)) (live_elems s)"
  by (simp add: entries_def iterate_yields [symmetric] split: prod.splits)

lemma example_stale_state:
  "exec [Add (Obj (Ordinary 1)), Add (Obj (Ordinary 2)), Reclaim (Ordinary 1)] new_iws =
     \<lparr>refs = [Ordinary 2 \<mapsto> 3], tokens = [Some (1, 0), Some (3, 2)],
      registry = [\<lparr>cell_target = None, held_value = 1, unregister_token = 0\<rparr>,
                  \<lparr>cell_target = Some (Ordinary 2), held_value = 3, unregister_token = 2\<rparr>],
      weakref_target = [3 \<mapsto> Ordinary 2], next_id = 4, reclaimed = {Ordinary 1}\<rparr>"
  by (simp add: add_Obj reclaim_def new_iws_def fun_eq_iff numeral_eq_Suc)

text \<open>
  A container to which an element that converts to \<open>false\<close> was added, before
  and after the first traversal.
\<close>

lemma example_false_state:
  "exec [Add (Obj (HTMLDDA 0))] new_iws =
     \<lparr>refs = [HTMLDDA 0 \<mapsto> 1], tokens = [Some (1, 0)],
      registry = [\<lparr>cell_target = Some (HTMLDDA 0), held_value = 1, unregister_token = 0\<rparr>],
      weakref_target = [1 \<mapsto> HTMLDDA 0], next_id = 2, reclaimed = {}\<rparr>"
  by (simp add: add_Obj new_iws_def fun_eq_iff numeral_eq_Suc)

lemma example_pruned_state:
  "exec [Add (Obj (HTMLDDA 0)), Traverse] new_iws =
     \<lparr>refs = [HTMLDDA 0 \<mapsto> 1], tokens = [None],
      registry = [],
      weakref_target = [1 \<mapsto> HTMLDDA 0], next_id = 2, reclaimed = {}\<rparr>"
  by (simp add: add_Obj new_iws_def fun_eq_iff numeral_eq_Suc iterate_def
        iterate_from.simps iter_next.simps deref_def prune_def unregister_cells_def)

section \<open>A pruned key never comes back\<close>

lemma keys_of_map_set: "set (keys_of (map_set k v es)) = insert k (set (keys_of es))"
  by (induction k v es rule: map_set.induct) auto

lemma keys_of_map_delete_subset: "set (keys_of (map_delete k es)) \<subseteq> set (keys_of es)"
  by (simp add: keys_of_map_delete set_remove1_subset)

lemma gone_prune:
  "r < next_id s \<and> r \<notin> set (keys_of (tokens s)) \<Longrightarrow>
   r < next_id (prune k t s) \<and> r \<notin> set (keys_of (tokens (prune k t s)))"
  using keys_of_map_delete_subset [of k "tokens s"] by (auto simp: prune_def)

lemma gone_delete:
  "r < next_id s \<and> r \<notin> set (keys_of (tokens s)) \<Longrightarrow>
   r < next_id (snd (delete v s)) \<and> r \<notin> set (keys_of (tokens (snd (delete v s))))"
  using keys_of_map_delete_subset [of _ "tokens s"]
  by (cases v) (auto simp: delete_Obj delete_primitive split: option.splits)

lemma gone_add:
  "r < next_id s \<and> r \<notin> set (keys_of (tokens s)) \<Longrightarrow>
   r < next_id (snd (add v s)) \<and> r \<notin> set (keys_of (tokens (snd (add v s))))"
  by (cases v) (auto simp: add_Obj add_primitive keys_of_map_set)

lemma gone_fire:
  "r < next_id s \<and> r \<notin> set (keys_of (tokens s)) \<Longrightarrow>
   r < next_id (fire k s) \<and> r \<notin> set (keys_of (tokens (fire k s)))"
  using keys_of_map_delete_subset [of _ "tokens s"]
  by (auto simp: fire_def cleanup_callback_def)

lemma gone_step:
  assumes "r < next_id s \<and> r \<notin> set (keys_of (tokens s))"
  shows "r < next_id (step e s) \<and> r \<notin> set (keys_of (tokens (step e s)))"
proof (cases e)
  case (Has v)
  with assms show ?thesis by (simp add: has_def)
next
  case (Add v)
  with gone_add [OF assms] show ?thesis by simp
next
  case (Delete v)
  with gone_delete [OF assms] show ?thesis by simp
next
  case Clear
  have "r < next_id (snd (clear_from s 0)) \<and> r \<notin> set (keys_of (tokens (snd (clear_from s 0))))"
    by (rule clear_from_run
          [where P = "\<lambda>x. r < next_id x \<and> r \<notin> set (keys_of (tokens x))", OF assms])
       (rule gone_prune, assumption, rule gone_delete, assumption)
  with Clear show ?thesis by (simp add: clear_def)
next
  case (Next i)
  obtain res s' i' where run: "iter_next s i = (res, s', i')" by (cases "iter_next s i")
  have "r < next_id s' \<and> r \<notin> set (keys_of (tokens s'))"
    by (rule iter_next_run
          [where P = "\<lambda>x. r < next_id x \<and> r \<notin> set (keys_of (tokens x))", OF run assms])
       (rule gone_prune)
  with Next run show ?thesis by simp
next
  case Traverse
  have "r < next_id (snd (iterate_from s 0))
      \<and> r \<notin> set (keys_of (tokens (snd (iterate_from s 0))))"
    by (rule iterate_from_run
          [where P = "\<lambda>x. r < next_id x \<and> r \<notin> set (keys_of (tokens x))", OF assms])
       (rule gone_prune)
  with Traverse show ?thesis by (simp add: iterate_def)
next
  case (Reclaim a)
  with assms show ?thesis by (simp add: reclaim_def)
next
  case (Fire k)
  with gone_fire [OF assms] show ?thesis by simp
qed

lemma gone_exec:
  "r < next_id s \<and> r \<notin> set (keys_of (tokens s)) \<Longrightarrow>
   r \<notin> set (keys_of (tokens (exec es s)))"
proof (induction es arbitrary: s)
  case Nil
  then show ?case by simp
next
  case (Cons e es)
  from Cons.IH [OF gone_step [OF Cons.prems]] show ?case by simp
qed

section \<open>The generator's test, and what holds for elements that pass it\<close>

lemma iter_next_true_record:
  assumes "i < length (tokens s)" and "tokens s ! i = Some (r, t)" and "to_boolean (deref s r)"
  shows "iter_next s i = (Some (deref s r), s, Suc i)"
  using assms by (simp add: iter_next.simps [of s i] Let_def)

lemma iter_next_false_record:
  assumes "i < length (tokens s)" and "tokens s ! i = Some (r, t)"
    and "\<not> to_boolean (deref s r)"
  shows "iter_next s i = iter_next (prune r t s) (Suc i)"
  using assms by (simp add: iter_next.simps [of s i] Let_def)

text \<open>
  What the generator does with the record it visits, in a reachable state:
  the test is whether the dereferenced value converts to \<open>true\<close>. If it does,
  that value is yielded and nothing changes. If it does not, the record is
  emptied in place, its key is in the token map after no continuation, no cell
  with its token is left in the registry, and nothing is yielded for it.
\<close>

lemma visit_record:
  assumes "trace_ok evs new_iws" and "s = exec evs new_iws"
    and "i < length (tokens s)" and "tokens s ! i = Some (r, t)"
  shows "(to_boolean (deref s r) \<longrightarrow> iter_next s i = (Some (deref s r), s, Suc i))
       \<and> (\<not> to_boolean (deref s r) \<longrightarrow>
            iter_next s i = iter_next (prune r t s) (Suc i)
          \<and> tokens (prune r t s) = (tokens s)[i := None]
          \<and> (\<forall>evs'. r \<notin> set (keys_of (tokens (exec evs' (prune r t s)))))
          \<and> (\<forall>c \<in> set (registry (prune r t s)). unregister_token c \<noteq> t)
          \<and> ((\<forall>c \<in> set (registry s). unregister_token c \<noteq> t) \<longrightarrow>
               registry (prune r t s) = registry s)
          \<and> refs (prune r t s) = refs s
          \<and> weakref_target (prune r t s) = weakref_target s)"
proof -
  have inv: "iws_inv s" using assms(1,2) by (simp add: inv_reachable)
  have key: "r \<in> set (keys_of (tokens s))" using assms(3,4) by (rule nth_keys_of)
  have del: "map_delete r (tokens s) = (tokens s)[i := None]"
    using inv_distinct [OF inv] assms(3,4) by (rule map_delete_nth)
  have "r < next_id (prune r t s)"
    using inv_key_bound [OF inv key] by (simp add: prune_def)
  moreover have "r \<notin> set (keys_of (tokens (prune r t s)))"
    using inv_distinct [OF inv] by (simp add: prune_def keys_of_map_delete)
  ultimately have gone: "r \<notin> set (keys_of (tokens (exec evs' (prune r t s))))" for evs'
    by (intro gone_exec conjI)
  have cancelled: "\<forall>c \<in> set (registry (prune r t s)). unregister_token c \<noteq> t"
    by (simp add: prune_def unregister_cells_def)
  have noop: "registry (prune r t s) = registry s"
    if "\<forall>c \<in> set (registry s). unregister_token c \<noteq> t"
    using that by (simp add: prune_def unregister_cells_def)
  have rest: "refs (prune r t s) = refs s" "weakref_target (prune r t s) = weakref_target s"
    "tokens (prune r t s) = (tokens s)[i := None]"
    using del by (simp_all add: prune_def)
  show ?thesis
    using iter_next_true_record [OF assms(3,4)] iter_next_false_record [OF assms(3,4)]
      gone cancelled noop rest
    by blast
qed

text \<open>
  For an element that converts to \<open>true\<close> the WeakMap's WeakRef is a key of
  the token map in every reachable state, so \<open>delete\<close> finds its token.
\<close>

lemma true_element_in_log:
  assumes "trace_ok evs new_iws" and "refs (exec evs new_iws) a = Some r"
    and "to_boolean (Obj a)"
  shows "r \<in> set (keys_of (tokens (exec evs new_iws)))
       \<and> fst (delete (Obj a) (exec evs new_iws)) = Inr True"
proof -
  have inv: "iws_inv (exec evs new_iws)" using assms(1) by (rule inv_reachable)
  from inv_refs_key [OF inv assms(2,3)] delete_returns [OF assms(2)] show ?thesis by simp
qed

text \<open>
  A traversal after any history yields the elements of the specification's
  insertion-ordered set that convert to \<open>true\<close>, in their order.
\<close>

lemma traversal_yields_true_elements:
  assumes "trace_ok evs new_iws"
  shows "fst (iterate (exec evs new_iws)) = filter to_boolean (spec_run evs [])"
  using live_exec [OF inv_new assms, of "[]"] by (simp add: live_new iterate_yields)

section \<open>Primitive arguments\<close>

text \<open>
  Claim C2, as the specification words it: for a primitive argument each of
  \<open>has\<close>, \<open>add\<close> and \<open>delete\<close> raises \<open>InvalidKeyType\<close>. On the code this
  fails for \<open>has\<close> and \<open>delete\<close>: with the primitive \<open>1\<close> on a new container
  it is not the case that all three raise.
\<close>

theorem primitive_all_raise_counterexample:
  "\<not> (fst (has (Num 1) new_iws) = Inl InvalidKeyType
      \<and> fst (add (Num 1) new_iws) = Inl InvalidKeyType
      \<and> fst (delete (Num 1) new_iws) = Inl InvalidKeyType)"
  by (simp add: has_def)

text \<open>
  Claim C2, amended: for every primitive argument and in every state, \<open>add\<close>
  raises \<open>InvalidKeyType\<close> (the host's \<open>TypeError\<close>, from \<open>new WeakRef\<close>) before
  any of the three structures is touched, while \<open>has\<close> and \<open>delete\<close> raise
  nothing: both answer \<open>false\<close>.
\<close>

theorem primitive_add_raises:
  assumes "\<not> can_be_held_weakly v"
  shows "fst (add v s) = Inl InvalidKeyType
       \<and> refs (snd (add v s)) = refs s
       \<and> tokens (snd (add v s)) = tokens s
       \<and> registry (snd (add v s)) = registry s
       \<and> fst (has v s) = Inr False
       \<and> fst (delete v s) = Inr False"
  using assms by (simp add: add_primitive has_primitive delete_primitive)

theorem primitive_add_raises_witness:
  "\<not> can_be_held_weakly (Num 1) \<and> fst (add (Num 1) new_iws) = Inl InvalidKeyType"
  using primitive_add_raises [of "Num 1" new_iws] by simp

text \<open>
  Claim C3: for every primitive argument and every state, \<open>has\<close> returns
  \<open>false\<close> and \<open>delete\<close> returns \<open>false\<close>, neither raises, neither changes the
  state; \<open>add\<close> is the only one of the three that throws.
\<close>

theorem primitive_has_delete_false:
  assumes "\<not> can_be_held_weakly v"
  shows "has v s = (Inr False, s) \<and> delete v s = (Inr False, s)
       \<and> (\<exists>e. fst (add v s) = Inl e)"
  using assms by (simp add: add_primitive has_primitive delete_primitive)

theorem primitive_has_delete_false_witness:
  "\<not> can_be_held_weakly (Str ''key'')
   \<and> has (Str ''key'') new_iws = (Inr False, new_iws)
   \<and> delete (Str ''key'') new_iws = (Inr False, new_iws)"
  using primitive_has_delete_false [of "Str ''key''" new_iws] by simp

section \<open>Adding a present element, deleting an absent one\<close>

text \<open>
  Claim C6: in a state where \<open>has(e)\<close> is true, \<open>add(e)\<close> returns normally (the
  method's \<open>return this\<close>) and leaves the whole state as it was: the same
  WeakMap, the same token map with the same records at the same positions,
  the same registry, hence the same size and \<open>has(e)\<close> still true.
\<close>

theorem add_present_noop:
  assumes "fst (has e s) = Inr True"
  shows "add e s = (Inr (), s)
       \<and> fst (has e (snd (add e s))) = Inr True
       \<and> fst (size_iws (snd (add e s))) = fst (size_iws s)
       \<and> weakmap_get (refs (snd (add e s))) e = weakmap_get (refs s) e
       \<and> tokens (snd (add e s)) = tokens s"
proof -
  from assms have "add e s = (Inr (), s)"
    by (simp add: add_def has_def)
  with assms show ?thesis by simp
qed

theorem add_present_noop_witness:
  "fst (has (Obj (Ordinary 7)) (snd (add (Obj (Ordinary 7)) new_iws))) = Inr True
   \<and> add (Obj (Ordinary 7)) (snd (add (Obj (Ordinary 7)) new_iws))
       = (Inr (), snd (add (Obj (Ordinary 7)) new_iws))"
  using add_present_noop [of "Obj (Ordinary 7)" "snd (add (Obj (Ordinary 7)) new_iws)"]
  by (simp add: add_Obj new_iws_def)

text \<open>
  Claim C8: for a reference value that is not present, \<open>delete\<close> returns
  \<open>false\<close>, raises nothing and leaves the state, and so the size, as it was.
\<close>

theorem delete_absent:
  assumes "fst (has (Obj a) s) = Inr False"
  shows "delete (Obj a) s = (Inr False, s)
       \<and> fst (size_iws (snd (delete (Obj a) s))) = fst (size_iws s)"
proof -
  from assms have "refs s a = None" by simp
  then have "delete (Obj a) s = (Inr False, s)" by (simp add: delete_Obj)
  then show ?thesis by simp
qed

theorem delete_absent_witness:
  "fst (has (Obj (Ordinary 3)) (snd (add (Obj (Ordinary 7)) new_iws))) = Inr False
   \<and> delete (Obj (Ordinary 3)) (snd (add (Obj (Ordinary 7)) new_iws))
       = (Inr False, snd (add (Obj (Ordinary 7)) new_iws))"
  using delete_absent [of "Ordinary 3" "snd (add (Obj (Ordinary 7)) new_iws)"]
  by (simp add: add_Obj new_iws_def)

section \<open>Stale records are never observed\<close>

text \<open>
  Claim C1: after every history from the empty container (any calls of the
  public operations and generator resumptions, interleaved with reclamations
  and with callbacks of the registry, or with no callback at all), a full
  traversal yields exactly what the records that are not stale dereference
  to, and never an element that was reclaimed; the same holds for a single
  resumption of the generator from any position; \<open>size\<close> counts exactly those
  elements, \<open>entries\<close> pairs exactly those, and \<open>has\<close> is false for every
  reclaimed element. Nothing in the hypothesis asks for a \<open>Fire\<close> event: the
  statement covers the histories in which the callback never runs.
\<close>

theorem stale_never_observed:
  assumes "trace_ok evs new_iws"
  shows "fst (iterate (exec evs new_iws)) = live_elems (exec evs new_iws)
       \<and> (\<forall>a \<in> reclaimed (exec evs new_iws). Obj a \<notin> set (fst (iterate (exec evs new_iws))))
       \<and> (\<forall>i v. fst (iter_next (exec evs new_iws) i) = Some v \<longrightarrow>
             v \<in> set (live_elems (exec evs new_iws)))
       \<and> fst (size_iws (exec evs new_iws)) = length (live_elems (exec evs new_iws))
       \<and> fst (entries (exec evs new_iws)) = map (\<lambda>v. (v, v)) (live_elems (exec evs new_iws))
       \<and> (\<forall>a \<in> reclaimed (exec evs new_iws). fst (has (Obj a) (exec evs new_iws)) = Inr False)"
proof -
  let ?s = "exec evs new_iws"
  have inv: "iws_inv ?s" using assms by (rule inv_reachable)
  have "Obj a \<notin> set (live_elems ?s)" if "a \<in> reclaimed ?s" for a
    using that live_not_reclaimed [OF inv, of a] by blast
  moreover have "refs ?s a = None" if "a \<in> reclaimed ?s" for a
  proof (cases "refs ?s a")
    case (Some r)
    from inv_target_live [OF inv inv_refs_target [OF inv Some]] that show ?thesis by simp
  qed simp
  ultimately show ?thesis
    by (simp add: iterate_yields size_counts entries_pairs iter_next_in_live)
qed

text \<open>
  A history without any callback: two elements are added and the first is
  reclaimed. Its record is still in the token map and is stale, yet it is
  neither yielded, nor counted, nor reported by \<open>has\<close>.
\<close>

theorem stale_never_observed_witness:
  "trace_ok [Add (Obj (Ordinary 1)), Add (Obj (Ordinary 2)),
       Reclaim (Ordinary 1)] new_iws
   \<and> 1 \<in> set (keys_of (tokens (exec [Add (Obj (Ordinary 1)), Add (Obj (Ordinary 2)),
       Reclaim (Ordinary 1)] new_iws)))
   \<and> stale (exec [Add (Obj (Ordinary 1)), Add (Obj (Ordinary 2)),
       Reclaim (Ordinary 1)] new_iws) 1
   \<and> fst (iterate (exec [Add (Obj (Ordinary 1)), Add (Obj (Ordinary 2)),
       Reclaim (Ordinary 1)] new_iws)) = [Obj (Ordinary 2)]
   \<and> fst (size_iws (exec [Add (Obj (Ordinary 1)), Add (Obj (Ordinary 2)),
       Reclaim (Ordinary 1)] new_iws)) = 1
   \<and> fst (has (Obj (Ordinary 1)) (exec [Add (Obj (Ordinary 1)), Add (Obj (Ordinary 2)),
       Reclaim (Ordinary 1)] new_iws)) = Inr False"
proof -
  have ok: "trace_ok [Add (Obj (Ordinary 1)), Add (Obj (Ordinary 2)),
       Reclaim (Ordinary 1)] new_iws"
    by (simp add: add_Obj new_iws_def)
  from stale_never_observed [OF ok] ok show ?thesis
    unfolding example_stale_state
    by (simp add: live_elems_def deref_def stale_def)
qed

section \<open>Restarting a traversal\<close>

text \<open>
  Claim C9: in every state, a second full traversal right after a first one
  yields the same sequence, whatever the first one pruned.
\<close>

theorem traversal_restartable:
  "fst (iterate (snd (iterate s))) = fst (iterate s)"
  by (simp add: iterate_yields live_iterate)

section \<open>An element that converts to false\<close>

text \<open>
  The generator decides with \<open>if (value)\<close> whether a WeakRef is empty, and the
  comment above the test says that the other branch is for empty WeakRefs. An
  element that converts to \<open>false\<close> takes that branch too: its record is pruned
  while the element is alive and the WeakMap still holds it. The four
  statements below evaluate the code on a container that has received such an
  element, \<open>Obj (HTMLDDA 0)\<close>.
\<close>

text \<open>
  Claim C4 says that a record whose WeakRef dereferences to an element has
  that element yielded. On the code, after \<open>add\<close> of the element the only record
  dereferences to it and the element is not reclaimed, and yet the resumption
  of the generator at that record yields nothing, empties the record and
  cancels its registration.
\<close>

theorem traversal_prunes_live_record:
  "trace_ok [Add (Obj (HTMLDDA 0))] new_iws
   \<and> tokens (exec [Add (Obj (HTMLDDA 0))] new_iws) ! 0 = Some (1, 0)
   \<and> deref (exec [Add (Obj (HTMLDDA 0))] new_iws) 1 = Obj (HTMLDDA 0)
   \<and> HTMLDDA 0 \<notin> reclaimed (exec [Add (Obj (HTMLDDA 0))] new_iws)
   \<and> fst (iter_next (exec [Add (Obj (HTMLDDA 0))] new_iws) 0) = None
   \<and> tokens (fst (snd (iter_next (exec [Add (Obj (HTMLDDA 0))] new_iws) 0))) = [None]
   \<and> registry (fst (snd (iter_next (exec [Add (Obj (HTMLDDA 0))] new_iws) 0))) = []"
proof -
  have "trace_ok [Add (Obj (HTMLDDA 0))] new_iws" by (simp add: new_iws_def)
  then show ?thesis
    unfolding example_false_state
    by (simp add: iter_next.simps deref_def prune_def unregister_cells_def)
qed

text \<open>
  Claim C5 says that a traversal yields the surviving elements in insertion
  order. On the code, after adding an ordinary element, the element that
  converts to \<open>false\<close> and another ordinary element, the traversal yields only
  the two ordinary ones, although \<open>has\<close> is true for all three and the
  specification's insertion-ordered set has all three.
\<close>

theorem traversal_omits_false_element:
  "trace_ok [Add (Obj (Ordinary 1)), Add (Obj (HTMLDDA 0)), Add (Obj (Ordinary 2))] new_iws
   \<and> fst (iterate (exec [Add (Obj (Ordinary 1)), Add (Obj (HTMLDDA 0)), Add (Obj (Ordinary 2))]
                        new_iws))
       = [Obj (Ordinary 1), Obj (Ordinary 2)]
   \<and> spec_run [Add (Obj (Ordinary 1)), Add (Obj (HTMLDDA 0)), Add (Obj (Ordinary 2))] []
       = [Obj (Ordinary 1), Obj (HTMLDDA 0), Obj (Ordinary 2)]
   \<and> fst (has (Obj (HTMLDDA 0))
            (exec [Add (Obj (Ordinary 1)), Add (Obj (HTMLDDA 0)), Add (Obj (Ordinary 2))]
               new_iws))
       = Inr True"
  by (simp add: add_Obj new_iws_def iterate_def iterate_from.simps iter_next.simps
        deref_def prune_def unregister_cells_def)

text \<open>
  Claim C7 says that after \<open>add(e)\<close> a \<open>delete(e)\<close> returns \<open>true\<close>. On the code,
  in the state reached by adding the element and traversing once (reading
  \<open>size\<close>, say), \<open>add\<close> of the element returns, \<open>has\<close> is true, and \<open>delete\<close>
  throws instead of returning \<open>true\<close>.
\<close>

theorem delete_throws_after_traversal:
  "trace_ok [Add (Obj (HTMLDDA 0)), Traverse] new_iws
   \<and> fst (add (Obj (HTMLDDA 0)) (exec [Add (Obj (HTMLDDA 0)), Traverse] new_iws)) = Inr ()
   \<and> fst (has (Obj (HTMLDDA 0))
            (snd (add (Obj (HTMLDDA 0)) (exec [Add (Obj (HTMLDDA 0)), Traverse] new_iws))))
       = Inr True
   \<and> fst (delete (Obj (HTMLDDA 0))
            (snd (add (Obj (HTMLDDA 0)) (exec [Add (Obj (HTMLDDA 0)), Traverse] new_iws))))
       = Inl TypeError"
proof -
  have "trace_ok [Add (Obj (HTMLDDA 0)), Traverse] new_iws" by (simp add: new_iws_def)
  then show ?thesis
    unfolding example_pruned_state by (simp add: add_Obj delete_Obj)
qed

text \<open>
  Claim C10 says that in every reachable state the WeakMap's WeakRef for a
  live element is a key of the token map, so that the lookup in \<open>delete\<close>
  never gives \<open>undefined\<close>. On the code, in the same reachable state the WeakMap
  holds the WeakRef 1 for the element, the element is not reclaimed, the token
  map has no such key, the lookup gives \<open>undefined\<close> and \<open>unregister\<close> throws.
\<close>

theorem lookup_fails_after_traversal:
  "trace_ok [Add (Obj (HTMLDDA 0)), Traverse] new_iws
   \<and> refs (exec [Add (Obj (HTMLDDA 0)), Traverse] new_iws) (HTMLDDA 0) = Some 1
   \<and> HTMLDDA 0 \<notin> reclaimed (exec [Add (Obj (HTMLDDA 0)), Traverse] new_iws)
   \<and> 1 \<notin> set (keys_of (tokens (exec [Add (Obj (HTMLDDA 0)), Traverse] new_iws)))
   \<and> map_get 1 (tokens (exec [Add (Obj (HTMLDDA 0)), Traverse] new_iws)) = None
   \<and> registry_unregister (map_get 1 (tokens (exec [Add (Obj (HTMLDDA 0)), Traverse] new_iws)))
         (registry (exec [Add (Obj (HTMLDDA 0)), Traverse] new_iws))
       = Inl TypeError"
proof -
  have "trace_ok [Add (Obj (HTMLDDA 0)), Traverse] new_iws" by (simp add: new_iws_def)
  then show ?thesis
    unfolding example_pruned_state by simp
qed

end
